theory Spec2Isabelle
  imports Main "HOL-Library.Word" "HOL-Library.Monad_Syntax"
begin

unbundle bit_operations_syntax

section \<open>Data model of net/bridge/rbridge/rbr.c\<close>

text \<open>
  The development embeds the TRILL RBridge data plane of \<^verbatim>\<open>rbr.c\<close>, built with
  \<^verbatim>\<open>CONFIG_TRILL_VNT\<close> undefined (the virtual-network extension is compiled out, so
  every \<^verbatim>\<open>#ifdef CONFIG_TRILL_VNT\<close> block is absent and the \<^verbatim>\<open>#ifndef\<close> block of
  \<^verbatim>\<open>rbr_recv\<close> is present).

  Every function of the file that can dereference a NULL pointer, run off the packet
  buffer or hit a kernel \<^verbatim>\<open>BUG\<close> returns an \<open>option\<close>: \<open>None\<close> is the kernel fault, \<open>Some\<close>
  a normal return. Logging (\<^verbatim>\<open>printk\<close>, \<^verbatim>\<open>pr_warn_ratelimited\<close>), spin locks and the
  reference counts taken by \<^verbatim>\<open>rbr_node_get\<close> and \<^verbatim>\<open>rbr_node_put\<close> have no effect on
  the values computed and are left out; the model is sequential.
\<close>

type_synonym byte = "8 word"
type_synonym u16 = "16 word"
type_synonym nickname = "16 word"

text \<open>A MAC address, \<^verbatim>\<open>u8[ETH_ALEN]\<close>.\<close>

datatype ether_addr = Ether_addr byte byte byte byte byte byte

fun addr_bytes :: "ether_addr \<Rightarrow> byte list" where
  "addr_bytes (Ether_addr a b c d e f) = [a, b, c, d, e, f]"

fun addr_of :: "byte list \<Rightarrow> ether_addr option" where
  "addr_of [a, b, c, d, e, f] = Some (Ether_addr a b c d e f)"
| "addr_of _ = None"

definition ETH_ALEN :: nat where "ETH_ALEN = 6"
definition ETH_HLEN :: nat where "ETH_HLEN = 14"
definition VLAN_HLEN :: nat where "VLAN_HLEN = 4"
definition ETH_P_TRILL :: u16 where "ETH_P_TRILL = 0x22F3"

text \<open>
  A bridge port: \<open>port_dev_addr\<close> is \<^verbatim>\<open>p->dev->dev_addr\<close>. The model has one bridge, so
  \<^verbatim>\<open>p->br\<close> is the bridge state that is passed along. A device is a port's device, the
  bridge's own device (\<^verbatim>\<open>br->dev\<close>) or a device that is no bridge port.
\<close>

record net_bridge_port =
  port_no :: nat
  port_dev_addr :: ether_addr

datatype net_device = Port_dev net_bridge_port | Bridge_dev | Foreign_dev

fun br_port_get_rcu :: "net_device \<Rightarrow> net_bridge_port option" where
  "br_port_get_rcu (Port_dev p) = Some p"
| "br_port_get_rcu _ = None"

text \<open>
  The packet buffer. \<open>head\<close> holds the bytes from \<^verbatim>\<open>skb->head\<close> to \<^verbatim>\<open>skb->tail\<close> (the
  buffer is linear), \<open>data\<close> and the header fields are offsets into it, as on a
  64-bit kernel. \<^verbatim>\<open>skb->len\<close> is \<open>length head - data\<close>. The \<^verbatim>\<open>__be16\<close> fields hold the
  value read in network byte order.
\<close>

record sk_buff =
  head :: "byte list"
  data :: nat
  mac_header :: nat
  network_header :: nat
  transport_header :: nat
  inner_mac_header :: nat
  inner_network_header :: nat
  inner_transport_header :: nat
  mac_len :: u16
  encapsulation :: bool
  cloned :: bool
  vlan_proto :: u16
  vlan_tci :: u16
  protocol :: u16
  dev :: net_device

text \<open>What the handler hands to the rest of the bridge, in the order of the calls.\<close>

datatype event =
    Br_forward net_bridge_port sk_buff
  | Br_trill_flood_forward sk_buff
  | Br_deliver net_bridge_port sk_buff
  | Br_endstation_deliver sk_buff
  | Kfree_skb sk_buff

text \<open>
  Modelled from the spec: \<^verbatim>\<open>struct rbr_nickinfo\<close>, \<^verbatim>\<open>struct rbr_node\<close> and \<^verbatim>\<open>struct rbr\<close>
  are declared in \<^verbatim>\<open>rbr_private.h\<close>, which is not among the sources. The spec gives a
  neighbour descriptor an \<^verbatim>\<open>adj_snpa\<close> MAC, an ordered sequence of adjacency nicknames of
  length \<^verbatim>\<open>adj_count\<close> and an ordered sequence of distribution-tree roots of length
  \<^verbatim>\<open>dt_root_count\<close>; \<^verbatim>\<open>RBR_NI_ADJNICK(ni, i)\<close> and \<^verbatim>\<open>RBR_NI_DTROOTNICK(ni, i)\<close> index them.
\<close>

record rbr_nickinfo =
  adjsnpa :: ether_addr
  adjnicks :: "nickname list"
  dtrootnicks :: "nickname list"

definition adjcount :: "rbr_nickinfo \<Rightarrow> nat" where
  "adjcount ni = length (adjnicks ni)"

definition dtrootcount :: "rbr_nickinfo \<Rightarrow> nat" where
  "dtrootcount ni = length (dtrootnicks ni)"

definition RBR_NI_ADJNICK :: "rbr_nickinfo \<Rightarrow> nat \<Rightarrow> nickname" where
  "RBR_NI_ADJNICK ni i = adjnicks ni ! i"

definition RBR_NI_DTROOTNICK :: "rbr_nickinfo \<Rightarrow> nat \<Rightarrow> nickname" where
  "RBR_NI_DTROOTNICK ni i = dtrootnicks ni ! i"

record rbr_node =
  rbr_ni :: rbr_nickinfo

record rbr =
  rbr_nick :: nickname
  rbr_treeroot :: nickname
  rbr_nodes :: "nickname \<rightharpoonup> rbr_node"

record net_bridge_fdb_entry =
  fdb_dst :: net_bridge_port
  fdb_used :: nat
  fdb_nick :: nickname

text \<open>
  The bridge, with the part of the kernel the handler touches: the forwarding database,
  the clock, the outcome of the allocations still to come (\<open>True\<close>: the next allocation
  fails; when the list is used up, allocations succeed) and the calls made so far.
\<close>

record net_bridge =
  br_dev_addr :: ether_addr
  stp_enabled :: bool
  trill_enabled :: bool
  br_rbr :: "rbr option"
  rx_dropped :: "64 word"
  tx_dropped :: "64 word"
  fdb :: "ether_addr \<times> u16 \<rightharpoonup> net_bridge_fdb_entry"
  jiffies :: nat
  alloc_fail :: "bool list"
  trace :: "event list"

text \<open>
  Modelled from the spec: the nickname constants and \<^verbatim>\<open>VALID_NICK\<close> of \<^verbatim>\<open>rbr_private.h\<close>.
  The spec reserves \<^verbatim>\<open>NICK_NONE\<close> and the all-ones value, and a nickname is valid iff it
  is neither; the loop of \<^verbatim>\<open>rbr_del_all\<close> runs over the whole 16-bit range.
\<close>

definition RBRIDGE_NICKNAME_MIN :: nickname where "RBRIDGE_NICKNAME_MIN = 0x0000"
definition RBRIDGE_NICKNAME_MAX :: nickname where "RBRIDGE_NICKNAME_MAX = 0xFFFF"
definition RBRIDGE_NICKNAME_NONE :: nickname where "RBRIDGE_NICKNAME_NONE = RBRIDGE_NICKNAME_MIN"
definition RBRIDGE_NICKNAME_UNUSED :: nickname where "RBRIDGE_NICKNAME_UNUSED = RBRIDGE_NICKNAME_MAX"

definition VALID_NICK :: "nickname \<Rightarrow> bool" where
  "VALID_NICK n \<longleftrightarrow> n \<noteq> RBRIDGE_NICKNAME_NONE \<and> n \<noteq> RBRIDGE_NICKNAME_UNUSED"

section \<open>Kernel primitives\<close>

text \<open>
  An allocation (\<^verbatim>\<open>kzalloc\<close>, \<^verbatim>\<open>skb_clone\<close>, \<^verbatim>\<open>skb_copy\<close>, a head reallocation) takes its
  outcome from \<open>alloc_fail\<close>.
\<close>

definition alloc :: "net_bridge \<Rightarrow> bool \<times> net_bridge" where
  "alloc br = (case alloc_fail br of
       [] \<Rightarrow> (True, br)
     | b # bs \<Rightarrow> (\<not> b, br\<lparr>alloc_fail := bs\<rparr>))"

definition emit :: "event \<Rightarrow> net_bridge \<Rightarrow> net_bridge" where
  "emit e br = br\<lparr>trace := trace br @ [e]\<rparr>"

definition kfree_skb :: "sk_buff \<Rightarrow> net_bridge \<Rightarrow> net_bridge" where
  "kfree_skb skb br = emit (Kfree_skb skb) br"

text \<open>Modelled from the spec: \<^verbatim>\<open>br_stp_stop\<close> (the spec's \<^verbatim>\<open>stp.stop(bridge)\<close>) is outside src.\<close>

definition br_stp_stop :: "net_bridge \<Rightarrow> net_bridge" where
  "br_stp_stop br = br\<lparr>stp_enabled := False\<rparr>"

section \<open>RBridge state: lines 17--131\<close>

definition add_rbr :: "net_bridge \<Rightarrow> rbr option \<times> net_bridge" where
  "add_rbr br = (case br_rbr br of
       None \<Rightarrow> (case alloc br of
           (False, br') \<Rightarrow> (None, br')
         | (True, br') \<Rightarrow>
             (Some \<lparr>rbr_nick = RBRIDGE_NICKNAME_NONE,
                    rbr_treeroot = RBRIDGE_NICKNAME_NONE,
                    rbr_nodes = Map.empty\<rparr>, br'))
     | Some r \<Rightarrow> (Some r, br))"

definition rbr_del_node :: "rbr \<Rightarrow> nickname \<Rightarrow> rbr" where
  "rbr_del_node r n =
     (if VALID_NICK n then
        (case rbr_nodes r n of
           Some node \<Rightarrow> r\<lparr>rbr_nodes := (rbr_nodes r)(n := None)\<rparr>
         | None \<Rightarrow> r)
      else r)"

definition rbr_del_all :: "rbr \<Rightarrow> rbr" where
  "rbr_del_all r =
     fold (\<lambda>i r'. if rbr_nodes r' (of_nat i) \<noteq> None then rbr_del_node r' (of_nat i) else r')
       [unat RBRIDGE_NICKNAME_MIN ..< unat RBRIDGE_NICKNAME_MAX] r"

definition br_trill_start :: "net_bridge \<Rightarrow> net_bridge" where
  "br_trill_start br =
     (let br1 = (if stp_enabled br then br_stp_stop br else br);
          (r, br2) = add_rbr br1;
          br3 = br2\<lparr>br_rbr := r\<rparr>
      in case r of Some _ \<Rightarrow> br3\<lparr>trill_enabled := True\<rparr> | None \<Rightarrow> br3)"

text \<open>
  \<^verbatim>\<open>br_trill_stop\<close> empties the old table and frees it; the freed state is no longer
  reachable from the bridge.
\<close>

definition br_trill_stop :: "net_bridge \<Rightarrow> net_bridge" where
  "br_trill_stop br =
     (let br1 = br\<lparr>trill_enabled := False\<rparr>;
          old = br_rbr br1;
          br2 = br1\<lparr>br_rbr := None\<rparr>
      in case old of
           Some r \<Rightarrow> (let freed = rbr_del_all r in br2)
         | None \<Rightarrow> br2)"

definition ENOENT :: int where "ENOENT = 2"

definition set_treeroot :: "rbr \<Rightarrow> nickname \<Rightarrow> int \<times> rbr" where
  "set_treeroot r treeroot =
     (if \<not> VALID_NICK treeroot then (ENOENT, r)
      else if rbr_treeroot r \<noteq> treeroot then (0, r\<lparr>rbr_treeroot := treeroot\<rparr>)
      else (0, r))"

text \<open>
  \<^verbatim>\<open>rbr_find_node\<close>: an invalid nickname returns NULL before \<^verbatim>\<open>rbr\<close> is touched; a valid
  one reads \<^verbatim>\<open>rbr->rbr_nodes\<close>, which faults when \<^verbatim>\<open>rbr\<close> is NULL.
\<close>

definition rbr_find_node :: "rbr option \<Rightarrow> nickname \<Rightarrow> rbr_node option option" where
  "rbr_find_node r n =
     (if \<not> VALID_NICK n then Some None
      else case r of None \<Rightarrow> None | Some r' \<Rightarrow> Some (rbr_nodes r' n))"

definition br_trill_set_enabled :: "net_bridge \<Rightarrow> 64 word \<Rightarrow> net_bridge" where
  "br_trill_set_enabled br val =
     (if val \<noteq> 0 then (if \<not> trill_enabled br then br_trill_start br else br)
      else (if trill_enabled br then br_trill_stop br else br))"


section \<open>Packet buffer and header primitives\<close>

text \<open>
  A read or write of \<open>n\<close> bytes at an offset is inside the buffer or faults.
\<close>

definition get_bytes :: "byte list \<Rightarrow> nat \<Rightarrow> nat \<Rightarrow> byte list option" where
  "get_bytes buf off n = (if off + n \<le> length buf then Some (take n (drop off buf)) else None)"

definition put_bytes :: "byte list \<Rightarrow> nat \<Rightarrow> byte list \<Rightarrow> byte list option" where
  "put_bytes buf off bs =
     (if off + length bs \<le> length buf
      then Some (take off buf @ bs @ drop (off + length bs) buf) else None)"

text \<open>
  A 16-bit field in network byte order (\<^verbatim>\<open>htons\<close>, \<^verbatim>\<open>ntohs\<close>), and one stored as the host
  has it. The nicknames of the TRILL header are stored without conversion (line 625:
  "ntohs not needed as the 2 are in the same bit form"); the host is little-endian.
\<close>

definition be16_bytes :: "u16 \<Rightarrow> byte list" where
  "be16_bytes w = [ucast (drop_bit 8 w), ucast w]"

definition host16_bytes :: "u16 \<Rightarrow> byte list" where
  "host16_bytes w = [ucast w, ucast (drop_bit 8 w)]"

fun be16_of :: "byte list \<Rightarrow> u16 option" where
  "be16_of [a, b] = Some (word_cat a b)"
| "be16_of _ = None"

fun host16_of :: "byte list \<Rightarrow> u16 option" where
  "host16_of [a, b] = Some (word_cat b a)"
| "host16_of _ = None"

text \<open>\<^verbatim>\<open>struct ethhdr\<close> at an offset of the buffer: \<^verbatim>\<open>h_dest\<close>, \<^verbatim>\<open>h_source\<close>, \<^verbatim>\<open>h_proto\<close>.\<close>

definition h_dest_at :: "byte list \<Rightarrow> nat \<Rightarrow> ether_addr option" where
  "h_dest_at buf off = get_bytes buf off ETH_ALEN \<bind> addr_of"

definition h_source_at :: "byte list \<Rightarrow> nat \<Rightarrow> ether_addr option" where
  "h_source_at buf off = get_bytes buf (off + ETH_ALEN) ETH_ALEN \<bind> addr_of"

definition h_proto_at :: "byte list \<Rightarrow> nat \<Rightarrow> u16 option" where
  "h_proto_at buf off = get_bytes buf (off + 2 * ETH_ALEN) 2 \<bind> be16_of"

text \<open>\<^verbatim>\<open>eth_hdr(skb)\<close> is the header at \<^verbatim>\<open>skb->mac_header\<close>.\<close>

definition eth_h_dest :: "sk_buff \<Rightarrow> ether_addr option" where
  "eth_h_dest skb = h_dest_at (head skb) (mac_header skb)"

definition eth_h_source :: "sk_buff \<Rightarrow> ether_addr option" where
  "eth_h_source skb = h_source_at (head skb) (mac_header skb)"

definition eth_h_proto :: "sk_buff \<Rightarrow> u16 option" where
  "eth_h_proto skb = h_proto_at (head skb) (mac_header skb)"

definition set_eth_h_dest :: "sk_buff \<Rightarrow> ether_addr \<Rightarrow> sk_buff option" where
  "set_eth_h_dest skb a =
     map_option (\<lambda>h. skb\<lparr>head := h\<rparr>) (put_bytes (head skb) (mac_header skb) (addr_bytes a))"

definition set_eth_h_source :: "sk_buff \<Rightarrow> ether_addr \<Rightarrow> sk_buff option" where
  "set_eth_h_source skb a =
     map_option (\<lambda>h. skb\<lparr>head := h\<rparr>)
       (put_bytes (head skb) (mac_header skb + ETH_ALEN) (addr_bytes a))"

definition set_eth_h_proto :: "sk_buff \<Rightarrow> u16 \<Rightarrow> sk_buff option" where
  "set_eth_h_proto skb v =
     map_option (\<lambda>h. skb\<lparr>head := h\<rparr>)
       (put_bytes (head skb) (mac_header skb + 2 * ETH_ALEN) (be16_bytes v))"

text \<open>
  Modelled from the spec: \<^verbatim>\<open>struct trill_hdr\<close> and its accessors are declared in
  \<^verbatim>\<open>rbr_private.h\<close>, which is not among the sources. The spec lays the header out as a
  16-bit flags word in network byte order, holding from the top version (2 bits),
  reserved (2 bits), multi-destination (1 bit), option length (5 bits, in units of 4
  octets) and hop count (6 bits), followed by the 16-bit egress and ingress nicknames:
  6 octets. \<^verbatim>\<open>trill_get_optslen\<close> gives the length of the options in octets, as line 577
  adds it to \<^verbatim>\<open>sizeof(*trh)\<close>. The protocol version is 0.
\<close>

definition sizeof_trill_hdr :: nat where "sizeof_trill_hdr = 6"

definition th_flags_at :: "byte list \<Rightarrow> nat \<Rightarrow> u16 option" where
  "th_flags_at buf off = get_bytes buf off 2 \<bind> be16_of"

definition th_egressnick_at :: "byte list \<Rightarrow> nat \<Rightarrow> nickname option" where
  "th_egressnick_at buf off = get_bytes buf (off + 2) 2 \<bind> host16_of"

definition th_ingressnick_at :: "byte list \<Rightarrow> nat \<Rightarrow> nickname option" where
  "th_ingressnick_at buf off = get_bytes buf (off + 4) 2 \<bind> host16_of"

definition TRILL_PROTOCOL_VERS :: u16 where "TRILL_PROTOCOL_VERS = 0"

definition trill_get_version :: "u16 \<Rightarrow> u16" where
  "trill_get_version flags = drop_bit 14 flags AND 0x3"

definition trill_get_multidest :: "u16 \<Rightarrow> bool" where
  "trill_get_multidest flags \<longleftrightarrow> drop_bit 11 flags AND 0x1 \<noteq> 0"

definition trill_get_optslen :: "u16 \<Rightarrow> nat" where
  "trill_get_optslen flags = unat (drop_bit 6 flags AND 0x1F) * 4"

definition trill_get_hopcount :: "u16 \<Rightarrow> u16" where
  "trill_get_hopcount flags = flags AND 0x3F"

definition trill_set_version :: "u16 \<Rightarrow> u16" where
  "trill_set_version v = push_bit 14 (v AND 0x3)"

definition trill_set_multidest :: "u16 \<Rightarrow> u16" where
  "trill_set_multidest m = push_bit 11 (m AND 0x1)"

definition trill_set_hopcount :: "u16 \<Rightarrow> u16" where
  "trill_set_hopcount h = h AND 0x3F"

text \<open>
  Modelled from the spec: \<^verbatim>\<open>trillhdr_dec_hopcount\<close> of \<^verbatim>\<open>rbr_private.h\<close> decrements the
  hop count of the header in place. The spec leaves a hop count of 0 to the caller's
  guarantee; here such a header is left as it is.
\<close>

definition trill_dec_hopcount :: "u16 \<Rightarrow> u16" where
  "trill_dec_hopcount flags =
     (let hc = trill_get_hopcount flags in
      if hc = 0 then flags else (flags AND NOT 0x3F) OR trill_set_hopcount (hc - 1))"

definition trillhdr_dec_hopcount :: "sk_buff \<Rightarrow> nat \<Rightarrow> sk_buff option" where
  "trillhdr_dec_hopcount skb trh = do {
     flags \<leftarrow> th_flags_at (head skb) trh;
     h \<leftarrow> put_bytes (head skb) trh (be16_bytes (trill_dec_hopcount flags));
     Some (skb\<lparr>head := h\<rparr>)
   }"

text \<open>
  Modelled from the spec: the buffer primitives of \<^verbatim>\<open>linux/skbuff.h\<close> and
  \<^verbatim>\<open>linux/if_vlan.h\<close> are outside src. \<^verbatim>\<open>skb_push\<close> opens \<open>n\<close> bytes of headroom and
  panics (\<^verbatim>\<open>skb_under_panic\<close>) when there are fewer; \<^verbatim>\<open>skb_pull\<close> leaves the buffer alone
  when it holds fewer than \<open>n\<close> bytes; \<^verbatim>\<open>skb_cow_head\<close> reallocates the head when the
  headroom is short or the buffer is cloned, which can fail; the new headroom is zeroed
  here. \<^verbatim>\<open>skb_clone\<close> marks both buffers cloned; \<^verbatim>\<open>skb_copy\<close> gives a private copy.
\<close>

definition skb_len :: "sk_buff \<Rightarrow> nat" where
  "skb_len skb = length (head skb) - data skb"

definition skb_headroom :: "sk_buff \<Rightarrow> nat" where
  "skb_headroom skb = data skb"

definition skb_push :: "sk_buff \<Rightarrow> nat \<Rightarrow> sk_buff option" where
  "skb_push skb n = (if n \<le> data skb then Some (skb\<lparr>data := data skb - n\<rparr>) else None)"

definition skb_pull :: "sk_buff \<Rightarrow> nat \<Rightarrow> sk_buff" where
  "skb_pull skb n = (if n \<le> skb_len skb then skb\<lparr>data := data skb + n\<rparr> else skb)"

definition pskb_may_pull :: "sk_buff \<Rightarrow> nat \<Rightarrow> bool" where
  "pskb_may_pull skb n \<longleftrightarrow> n \<le> skb_len skb"

definition skb_reset_mac_header :: "sk_buff \<Rightarrow> sk_buff" where
  "skb_reset_mac_header skb = skb\<lparr>mac_header := data skb\<rparr>"

definition skb_reset_network_header :: "sk_buff \<Rightarrow> sk_buff" where
  "skb_reset_network_header skb = skb\<lparr>network_header := data skb\<rparr>"

definition skb_reset_inner_headers :: "sk_buff \<Rightarrow> sk_buff" where
  "skb_reset_inner_headers skb =
     skb\<lparr>inner_mac_header := mac_header skb,
         inner_network_header := network_header skb,
         inner_transport_header := transport_header skb\<rparr>"

definition skb_reset_mac_len :: "sk_buff \<Rightarrow> sk_buff" where
  "skb_reset_mac_len skb =
     skb\<lparr>mac_len := of_nat (network_header skb) - of_nat (mac_header skb)\<rparr>"

definition NET_SKB_PAD :: nat where "NET_SKB_PAD = 32"

definition ALIGN :: "nat \<Rightarrow> nat \<Rightarrow> nat" where
  "ALIGN x a = ((x + a - 1) div a) * a"

definition pskb_expand_head :: "sk_buff \<Rightarrow> nat \<Rightarrow> sk_buff" where
  "pskb_expand_head skb nhead =
     skb\<lparr>head := replicate nhead 0 @ head skb,
         data := data skb + nhead,
         mac_header := mac_header skb + nhead,
         network_header := network_header skb + nhead,
         transport_header := transport_header skb + nhead,
         inner_mac_header := inner_mac_header skb + nhead,
         inner_network_header := inner_network_header skb + nhead,
         inner_transport_header := inner_transport_header skb + nhead,
         cloned := False\<rparr>"

text \<open>\<open>skb_cow_head\<close> returns whether it succeeded, with the buffer and the bridge.\<close>

definition skb_cow_head :: "sk_buff \<Rightarrow> nat \<Rightarrow> net_bridge \<Rightarrow> bool \<times> sk_buff \<times> net_bridge" where
  "skb_cow_head skb headroom br =
     (let delta = headroom - skb_headroom skb in
      if delta = 0 \<and> \<not> cloned skb then (True, skb, br)
      else (case alloc br of
              (False, br') \<Rightarrow> (False, skb, br')
            | (True, br') \<Rightarrow> (True, pskb_expand_head skb (ALIGN delta NET_SKB_PAD), br')))"

text \<open>\<open>skb_clone\<close> returns the clone (if any), the original and the bridge.\<close>

definition skb_clone :: "sk_buff \<Rightarrow> net_bridge \<Rightarrow> sk_buff option \<times> sk_buff \<times> net_bridge" where
  "skb_clone skb br =
     (case alloc br of
        (False, br') \<Rightarrow> (None, skb, br')
      | (True, br') \<Rightarrow> (Some (skb\<lparr>cloned := True\<rparr>), skb\<lparr>cloned := True\<rparr>, br'))"

definition skb_copy :: "sk_buff \<Rightarrow> net_bridge \<Rightarrow> sk_buff option \<times> net_bridge" where
  "skb_copy skb br =
     (case alloc br of
        (False, br') \<Rightarrow> (None, br')
      | (True, br') \<Rightarrow> (Some (skb\<lparr>cloned := False\<rparr>), br'))"

text \<open>
  \<^verbatim>\<open>br_vlan_get_tag\<close> returns 0, with the VLAN id, when the buffer carries an accelerated
  tag (here \<open>Some\<close>). \<^verbatim>\<open>vlan_insert_tag\<close> puts the tag into the frame after the two MAC
  addresses, at \<^verbatim>\<open>skb->data\<close>; when it cannot get the headroom it frees the buffer and
  returns NULL (here \<open>None\<close> in the first component).
\<close>

definition VLAN_TAG_PRESENT :: u16 where "VLAN_TAG_PRESENT = 0x1000"
definition VLAN_VID_MASK :: u16 where "VLAN_VID_MASK = 0x0FFF"

definition br_vlan_get_tag :: "sk_buff \<Rightarrow> u16 option" where
  "br_vlan_get_tag skb =
     (if vlan_tci skb AND VLAN_TAG_PRESENT \<noteq> 0
      then Some ((vlan_tci skb AND NOT VLAN_TAG_PRESENT) AND VLAN_VID_MASK)
      else None)"

definition vlan_insert_tag ::
  "sk_buff \<Rightarrow> u16 \<Rightarrow> u16 \<Rightarrow> net_bridge \<Rightarrow> (sk_buff option \<times> net_bridge) option" where
  "vlan_insert_tag skb proto tci br =
     (case skb_cow_head skb VLAN_HLEN br of
        (False, skb1, br1) \<Rightarrow> Some (None, kfree_skb skb1 br1)
      | (True, skb1, br1) \<Rightarrow> do {
          skb2 \<leftarrow> skb_push skb1 VLAN_HLEN;
          macs \<leftarrow> get_bytes (head skb2) (data skb2 + VLAN_HLEN) (2 * ETH_ALEN);
          h1 \<leftarrow> put_bytes (head skb2) (data skb2) macs;
          h2 \<leftarrow> put_bytes h1 (data skb2 + 2 * ETH_ALEN) (be16_bytes proto);
          h3 \<leftarrow> put_bytes h2 (data skb2 + 2 * ETH_ALEN + 2) (be16_bytes tci);
          Some (Some (skb2\<lparr>head := h3, mac_header := mac_header skb2 - VLAN_HLEN\<rparr>), br1)
        })"

text \<open>
  Modelled from the spec: the bridge's forwarding database and its delivery primitives
  (\<^verbatim>\<open>__br_fdb_get\<close>, \<^verbatim>\<open>br_fdb_update\<close>, \<^verbatim>\<open>br_fdb_update_nick\<close>, \<^verbatim>\<open>br_forward\<close>,
  \<^verbatim>\<open>br_trill_flood_forward\<close>, \<^verbatim>\<open>br_deliver\<close>, \<^verbatim>\<open>br_endstation_deliver\<close>) are outside src.
  The spec gives \<^verbatim>\<open>get(bridge, mac, vid)\<close>, \<^verbatim>\<open>update(bridge, port, mac, vid)\<close> and
  \<^verbatim>\<open>update_with_nick(bridge, port, mac, vid, ingress_nick)\<close>, the last recording the
  learning hint; a plain update records no nickname. The delivery primitives take the
  buffer over and are recorded in \<open>trace\<close>.
\<close>

definition br_fdb_get :: "net_bridge \<Rightarrow> ether_addr \<Rightarrow> u16 \<Rightarrow> net_bridge_fdb_entry option" where
  "br_fdb_get br addr vid = fdb br (addr, vid)"

definition br_fdb_update_nick ::
  "net_bridge \<Rightarrow> net_bridge_port \<Rightarrow> ether_addr \<Rightarrow> u16 \<Rightarrow> nickname \<Rightarrow> net_bridge" where
  "br_fdb_update_nick br p addr vid n =
     br\<lparr>fdb := (fdb br)((addr, vid) \<mapsto>
           \<lparr>fdb_dst = p, fdb_used = jiffies br, fdb_nick = n\<rparr>)\<rparr>"

definition br_fdb_update ::
  "net_bridge \<Rightarrow> net_bridge_port \<Rightarrow> ether_addr \<Rightarrow> u16 \<Rightarrow> net_bridge" where
  "br_fdb_update br p addr vid = br_fdb_update_nick br p addr vid RBRIDGE_NICKNAME_NONE"

definition br_forward :: "net_bridge_port \<Rightarrow> sk_buff \<Rightarrow> net_bridge \<Rightarrow> net_bridge" where
  "br_forward p skb br = emit (Br_forward p skb) br"

definition br_trill_flood_forward :: "sk_buff \<Rightarrow> net_bridge \<Rightarrow> net_bridge" where
  "br_trill_flood_forward skb br = emit (Br_trill_flood_forward skb) br"

definition br_deliver :: "net_bridge_port \<Rightarrow> sk_buff \<Rightarrow> net_bridge \<Rightarrow> net_bridge" where
  "br_deliver p skb br = emit (Br_deliver p skb) br"

definition br_endstation_deliver :: "sk_buff \<Rightarrow> net_bridge \<Rightarrow> net_bridge" where
  "br_endstation_deliver skb br = emit (Br_endstation_deliver skb) br"

section \<open>Forwarder: lines 133--188\<close>

text \<open>
  \<^verbatim>\<open>rbr_fwd_finish\<close>: every caller has set \<^verbatim>\<open>skb->dev\<close> to the bridge device, so
  \<^verbatim>\<open>netdev_priv(dev)\<close> is the bridge.
\<close>

definition rbr_fwd_finish :: "sk_buff \<Rightarrow> u16 \<Rightarrow> net_bridge \<Rightarrow> net_bridge option" where
  "rbr_fwd_finish skb vid br = do {
     dest \<leftarrow> eth_h_dest skb;
     case br_fdb_get br dest vid of
       Some dst \<Rightarrow> do {
         let br1 = br\<lparr>fdb := (fdb br)((dest, vid) \<mapsto> dst\<lparr>fdb_used := jiffies br\<rparr>)\<rparr>;
         skb1 \<leftarrow> set_eth_h_source skb (port_dev_addr (fdb_dst dst));
         Some (br_forward (fdb_dst dst) skb1 br1)
       }
     | None \<Rightarrow> Some (br_trill_flood_forward skb br)
   }"

definition dest_fwd_fail :: "sk_buff \<Rightarrow> net_bridge \<Rightarrow> net_bridge" where
  "dest_fwd_fail skb br = kfree_skb skb (br\<lparr>tx_dropped := tx_dropped br + 1\<rparr>)"

definition rbr_fwd ::
  "net_bridge_port \<Rightarrow> sk_buff \<Rightarrow> nickname \<Rightarrow> u16 \<Rightarrow> net_bridge \<Rightarrow> net_bridge option" where
  "rbr_fwd p skb adj_nick vid br = do {
     adj \<leftarrow> rbr_find_node (br_rbr br) adj_nick;
     case adj of
       None \<Rightarrow> Some (dest_fwd_fail skb br)
     | Some a \<Rightarrow> do {
         skb1 \<leftarrow> trillhdr_dec_hopcount skb (data skb);
         skb2 \<leftarrow> set_eth_h_source skb1 (br_dev_addr br);
         skb3 \<leftarrow> set_eth_h_dest skb2 (adjsnpa (rbr_ni a));
         rbr_fwd_finish (skb3\<lparr>dev := Bridge_dev\<rparr>) vid br
       }
   }"

section \<open>Replicator: lines 190--275\<close>

text \<open>
  How the adjacency loop is left: by falling through, with \<^verbatim>\<open>nicksaved\<close> and
  \<^verbatim>\<open>adjnicksaved\<close>, or by \<^verbatim>\<open>goto multidest_fwd_fail\<close>.
\<close>

datatype loop_exit = Loop_done bool nickname | Loop_fail

fun multidest_loop ::
  "net_bridge_port \<Rightarrow> rbr \<Rightarrow> sk_buff \<Rightarrow> nickname \<Rightarrow> ether_addr option \<Rightarrow> u16 \<Rightarrow> bool \<Rightarrow>
   nickname list \<Rightarrow> bool \<Rightarrow> nickname \<Rightarrow> net_bridge \<Rightarrow> (loop_exit \<times> net_bridge) option" where
  "multidest_loop p r skb ingressnick saddr vid free [] nicksaved adjnicksaved br =
     Some (Loop_done nicksaved adjnicksaved, br)"
| "multidest_loop p r skb ingressnick saddr vid free (adjnick # rest) nicksaved adjnicksaved br =
     (if \<not> VALID_NICK adjnick \<or> ingressnick = adjnick
      then multidest_loop p r skb ingressnick saddr vid free rest nicksaved adjnicksaved br
      else (case rbr_find_node (Some r) adjnick of
          None \<Rightarrow> None
        | Some None \<Rightarrow>
            multidest_loop p r skb ingressnick saddr vid free rest nicksaved adjnicksaved br
        | Some (Some adj) \<Rightarrow>
            if saddr \<noteq> None \<and> saddr = Some (adjsnpa (rbr_ni adj))
            then multidest_loop p r skb ingressnick saddr vid free rest nicksaved adjnicksaved br
            else if \<not> nicksaved \<and> free
            then multidest_loop p r skb ingressnick saddr vid free rest True adjnick br
            else (case skb_copy skb br of
                (None, br1) \<Rightarrow> Some (Loop_fail, br1\<lparr>tx_dropped := tx_dropped br1 + 1\<rparr>)
              | (Some skb2, br1) \<Rightarrow>
                  (case rbr_fwd p skb2 adjnick vid br1 of
                     None \<Rightarrow> None
                   | Some br2 \<Rightarrow>
                       multidest_loop p r skb ingressnick saddr vid free rest
                         nicksaved adjnicksaved br2))))"

definition multidest_fwd_fail ::
  "net_bridge_port option \<Rightarrow> sk_buff \<Rightarrow> net_bridge \<Rightarrow> int \<times> net_bridge" where
  "multidest_fwd_fail p skb br =
     (- 1, kfree_skb skb (if p \<noteq> None then br\<lparr>tx_dropped := tx_dropped br + 1\<rparr> else br))"

definition rbr_multidest_fwd ::
  "net_bridge_port option \<Rightarrow> sk_buff \<Rightarrow> nickname \<Rightarrow> nickname \<Rightarrow> ether_addr option \<Rightarrow> u16 \<Rightarrow>
   bool \<Rightarrow> net_bridge \<Rightarrow> (int \<times> net_bridge) option" where
  "rbr_multidest_fwd p skb egressnick ingressnick saddr vid free br =
     (case p of
        None \<Rightarrow> Some (multidest_fwd_fail p skb br)
      | Some port \<Rightarrow>
          (case br_rbr br of
             None \<Rightarrow> Some (multidest_fwd_fail p skb br)
           | Some r \<Rightarrow>
               (case rbr_find_node (Some r) egressnick of
                  None \<Rightarrow> None
                | Some None \<Rightarrow> Some (multidest_fwd_fail p skb br)
                | Some (Some dest) \<Rightarrow>
                    (case multidest_loop port r skb ingressnick saddr vid free
                            (adjnicks (rbr_ni dest)) False 0 br of
                       None \<Rightarrow> None
                     | Some (Loop_fail, br1) \<Rightarrow> Some (multidest_fwd_fail p skb br1)
                     | Some (Loop_done nicksaved adjnicksaved, br1) \<Rightarrow>
                         if nicksaved
                         then map_option (Pair 0) (rbr_fwd port skb adjnicksaved vid br1)
                         else Some (0, kfree_skb skb br1)))))"

section \<open>Encapsulator: lines 277--431\<close>

text \<open>
  \<^verbatim>\<open>TRILL_DEFAULT_HOPS\<close> is defined in \<^verbatim>\<open>rbr_private.h\<close>, which is not among the sources;
  it is the parameter \<open>hops\<close> of \<^verbatim>\<open>rbr_encaps\<close> and \<^verbatim>\<open>rbr_encaps_prepare\<close>.
\<close>

text \<open>Lines 306--314: an accelerated VLAN tag goes back into the frame.\<close>

definition rbr_encaps_vlan ::
  "sk_buff \<Rightarrow> net_bridge \<Rightarrow> (sk_buff option \<times> net_bridge) option" where
  "rbr_encaps_vlan skb br =
     (case br_vlan_get_tag skb of
        Some tci \<Rightarrow>
          (case vlan_insert_tag skb (vlan_proto skb) tci br of
             None \<Rightarrow> None
           | Some (None, br1) \<Rightarrow> Some (None, br1)
           | Some (Some skb1, br1) \<Rightarrow> Some (Some (skb1\<lparr>vlan_proto := 0, vlan_tci := 0\<rparr>), br1))
      | None \<Rightarrow> Some (Some skb, br))"

text \<open>Lines 339--352: the TRILL header and the outer Ethernet header.\<close>

definition rbr_encaps_hdr ::
  "u16 \<Rightarrow> sk_buff \<Rightarrow> nickname \<Rightarrow> nickname \<Rightarrow> bool \<Rightarrow> sk_buff option" where
  "rbr_encaps_hdr hops skb ingressnick egressnick multidest = do {
     skb1 \<leftarrow> skb_push skb sizeof_trill_hdr;
     let trh = data skb1;
     let trill_flags = 0 OR trill_set_version TRILL_PROTOCOL_VERS OR
                       trill_set_hopcount hops OR
                       trill_set_multidest (if multidest then 1 else 0);
     h1 \<leftarrow> put_bytes (head skb1) trh (be16_bytes trill_flags);
     h2 \<leftarrow> put_bytes h1 (trh + 2) (host16_bytes egressnick);
     h3 \<leftarrow> put_bytes h2 (trh + 4) (host16_bytes ingressnick);
     skb2 \<leftarrow> skb_push (skb1\<lparr>head := h3\<rparr>) ETH_HLEN;
     skb3 \<leftarrow> set_eth_h_proto (skb_reset_mac_header skb2) ETH_P_TRILL;
     Some (skb_reset_mac_len (skb_pull skb3 ETH_HLEN))
   }"

text \<open>
  \<^verbatim>\<open>rbr_encaps\<close> returns whether it failed (the C function returns 1), the buffer and the
  bridge. After a failed \<^verbatim>\<open>vlan_insert_tag\<close> the caller still holds the buffer that was
  freed there.
\<close>

definition rbr_encaps ::
  "u16 \<Rightarrow> sk_buff \<Rightarrow> nickname \<Rightarrow> nickname \<Rightarrow> bool \<Rightarrow> net_bridge \<Rightarrow>
   (bool \<times> sk_buff \<times> net_bridge) option" where
  "rbr_encaps hops skb ingressnick egressnick multidest br = do {
     let trhsize = sizeof_trill_hdr;
     skb1 \<leftarrow> skb_push skb ETH_HLEN;
     let skb2 = (if \<not> encapsulation skb1
                 then (skb_reset_inner_headers skb1)\<lparr>encapsulation := True\<rparr> else skb1);
     (tagged, br1) \<leftarrow> rbr_encaps_vlan skb2 br;
     case tagged of
       None \<Rightarrow> Some (True, skb2, br1)
     | Some skb3 \<Rightarrow>
         (case skb_cow_head skb3 (trhsize + ETH_HLEN) br1 of
            (False, skb4, br2) \<Rightarrow> Some (True, skb4, br2)
          | (True, skb4, br2) \<Rightarrow>
              map_option (\<lambda>skb5. (False, skb5, br2))
                (rbr_encaps_hdr hops skb4 ingressnick egressnick multidest))
   }"

definition encaps_drop :: "net_bridge_port option \<Rightarrow> sk_buff \<Rightarrow> net_bridge \<Rightarrow> net_bridge" where
  "encaps_drop p skb br =
     kfree_skb skb (if p \<noteq> None then br\<lparr>tx_dropped := tx_dropped br + 1\<rparr> else br)"

text \<open>Lines 386--417: the branch for \<^verbatim>\<open>egressnick == RBRIDGE_NICKNAME_NONE\<close>.\<close>

definition rbr_encaps_flood ::
  "u16 \<Rightarrow> net_bridge_port \<Rightarrow> rbr \<Rightarrow> sk_buff \<Rightarrow> nickname \<Rightarrow> u16 \<Rightarrow> net_bridge \<Rightarrow>
   net_bridge option" where
  "rbr_encaps_flood hops p r skb local_nick vid br =
     (case rbr_find_node (Some r) local_nick of
        None \<Rightarrow> None
      | Some None \<Rightarrow> Some (encaps_drop (Some p) skb br)
      | Some (Some self) \<Rightarrow>
          (let dtrNick = (if dtrootcount (rbr_ni self) > 0
                          then RBR_NI_DTROOTNICK (rbr_ni self) 0 else rbr_treeroot r) in
           if \<not> VALID_NICK dtrNick then Some (encaps_drop (Some p) skb br)
           else (case skb_clone skb br of
               (None, skb1, br1) \<Rightarrow>
                 Some (encaps_drop (Some p) skb1 (br1\<lparr>tx_dropped := tx_dropped br1 + 1\<rparr>))
             | (Some skb2, skb1, br1) \<Rightarrow>
                 (case rbr_encaps hops skb1 local_nick dtrNick True
                         (br_endstation_deliver skb2 br1) of
                    None \<Rightarrow> None
                  | Some (True, skb3, br3) \<Rightarrow> Some (encaps_drop (Some p) skb3 br3)
                  | Some (False, skb3, br3) \<Rightarrow>
                      map_option snd
                        (rbr_multidest_fwd (Some p) skb3 dtrNick local_nick None vid True br3)))))"

definition rbr_encaps_prepare ::
  "u16 \<Rightarrow> sk_buff \<Rightarrow> nickname \<Rightarrow> u16 \<Rightarrow> net_bridge \<Rightarrow> net_bridge option" where
  "rbr_encaps_prepare hops skb egressnick vid br =
     (case br_port_get_rcu (dev skb) of
        None \<Rightarrow> Some (encaps_drop None skb br)
      | Some p \<Rightarrow>
          if egressnick \<noteq> RBRIDGE_NICKNAME_NONE \<and> \<not> VALID_NICK egressnick
          then Some (encaps_drop (Some p) skb br)
          else (case br_rbr br of
              None \<Rightarrow> None
            | Some r \<Rightarrow>
                (let local_nick = rbr_nick r in
                 if \<not> VALID_NICK local_nick then Some (encaps_drop (Some p) skb br)
                 else if egressnick = RBRIDGE_NICKNAME_NONE
                 then rbr_encaps_flood hops p r skb local_nick vid br
                 else (case rbr_encaps hops skb local_nick egressnick False br of
                     None \<Rightarrow> None
                   | Some (True, skb1, br1) \<Rightarrow> Some (encaps_drop (Some p) skb1 br1)
                   | Some (False, skb1, br1) \<Rightarrow> rbr_fwd p skb1 egressnick vid br1))))"

section \<open>Decapsulator: lines 437--543\<close>

definition rbr_decap_finish :: "sk_buff \<Rightarrow> u16 \<Rightarrow> net_bridge \<Rightarrow> net_bridge option" where
  "rbr_decap_finish skb vid br = do {
     dest \<leftarrow> eth_h_dest skb;
     case br_fdb_get br dest vid of
       Some dst \<Rightarrow> Some (br_deliver (fdb_dst dst) skb br)
     | None \<Rightarrow> Some (br_endstation_deliver skb br)
   }"

definition rbr_decaps_drop :: "net_bridge_port option \<Rightarrow> sk_buff \<Rightarrow> net_bridge \<Rightarrow> net_bridge" where
  "rbr_decaps_drop p skb br =
     kfree_skb skb (if p \<noteq> None then br\<lparr>rx_dropped := rx_dropped br + 1\<rparr> else br)"

definition rbr_decaps ::
  "net_bridge_port option \<Rightarrow> sk_buff \<Rightarrow> nat \<Rightarrow> u16 \<Rightarrow> net_bridge \<Rightarrow> net_bridge option" where
  "rbr_decaps p skb trhsize vid br =
     (case p of
        None \<Rightarrow> Some (rbr_decaps_drop p skb br)
      | Some port \<Rightarrow>
          (let trh = data skb in
           if trhsize \<ge> sizeof_trill_hdr then do {
             let skb1 = skb_reset_mac_header (skb_pull skb sizeof_trill_hdr);
             proto \<leftarrow> eth_h_proto skb1;
             let skb2 = skb1\<lparr>protocol := proto\<rparr>;
             let hdr = data skb2;
             let skb3 = skb_reset_network_header (skb_pull skb2 ETH_HLEN);
             let skb4 = (if encapsulation skb3 then skb3\<lparr>encapsulation := False\<rparr> else skb3);
             let skb5 = skb4\<lparr>dev := Bridge_dev\<rparr>;
             h_source \<leftarrow> h_source_at (head skb5) hdr;
             ingressnick \<leftarrow> th_ingressnick_at (head skb5) trh;
             rbr_decap_finish skb5 vid (br_fdb_update_nick br port h_source vid ingressnick)
           }
           else Some (rbr_decaps_drop p skb br)))"

section \<open>Receive path: lines 545--733\<close>

definition recv_drop :: "net_bridge_port option \<Rightarrow> sk_buff \<Rightarrow> net_bridge \<Rightarrow> net_bridge" where
  "recv_drop p skb br =
     kfree_skb skb (if p \<noteq> None then br\<lparr>rx_dropped := rx_dropped br + 1\<rparr> else br)"

text \<open>Lines 624--640: a unicast frame.\<close>

definition rbr_recv_unicast ::
  "net_bridge_port \<Rightarrow> sk_buff \<Rightarrow> u16 \<Rightarrow> ether_addr \<Rightarrow> u16 \<Rightarrow> nat \<Rightarrow> nickname \<Rightarrow> nickname \<Rightarrow>
   nickname \<Rightarrow> net_bridge \<Rightarrow> net_bridge option" where
  "rbr_recv_unicast p skb vid srcaddr trill_flags trhsize th_egressnick th_ingressnick
     local_nick br =
     (if th_egressnick = th_ingressnick then Some (recv_drop (Some p) skb br)
      else if th_egressnick = local_nick then rbr_decaps (Some p) skb trhsize vid br
      else if trill_get_hopcount trill_flags \<noteq> 0
      then rbr_fwd p skb th_egressnick vid (br_fdb_update br p srcaddr vid)
      else Some (recv_drop (Some p) skb br))"

text \<open>
  Lines 652--662 and 681--684: the two search loops, each returning the value of
  \<^verbatim>\<open>idx\<close> with which it is left.
\<close>

fun recv_adj_loop :: "rbr \<Rightarrow> ether_addr \<Rightarrow> nickname list \<Rightarrow> nat \<Rightarrow> nat option" where
  "recv_adj_loop r srcaddr [] idx = Some idx"
| "recv_adj_loop r srcaddr (adjnick # rest) idx =
     (case rbr_find_node (Some r) adjnick of
        None \<Rightarrow> None
      | Some None \<Rightarrow> recv_adj_loop r srcaddr rest (idx + 1)
      | Some (Some adj) \<Rightarrow>
          if adjsnpa (rbr_ni adj) = srcaddr then Some idx
          else recv_adj_loop r srcaddr rest (idx + 1))"

fun recv_dtroot_loop :: "nickname \<Rightarrow> nickname list \<Rightarrow> nat \<Rightarrow> nat" where
  "recv_dtroot_loop th_egressnick [] idx = idx"
| "recv_dtroot_loop th_egressnick (root # rest) idx =
     (if root = th_egressnick then idx else recv_dtroot_loop th_egressnick rest (idx + 1))"

text \<open>Lines 642--726: a multi-destination frame.\<close>

definition rbr_recv_multidest ::
  "net_bridge_port \<Rightarrow> rbr \<Rightarrow> sk_buff \<Rightarrow> u16 \<Rightarrow> ether_addr \<Rightarrow> u16 \<Rightarrow> nat \<Rightarrow> nickname \<Rightarrow>
   nickname \<Rightarrow> nickname \<Rightarrow> net_bridge \<Rightarrow> net_bridge option" where
  "rbr_recv_multidest p r skb vid srcaddr trill_flags trhsize th_egressnick th_ingressnick
     dtrNick br =
     (case rbr_find_node (Some r) th_egressnick of
        None \<Rightarrow> None
      | Some None \<Rightarrow> Some (recv_drop (Some p) skb br)
      | Some (Some dest) \<Rightarrow>
          (case recv_adj_loop r srcaddr (adjnicks (rbr_ni dest)) 0 of
             None \<Rightarrow> None
           | Some idx \<Rightarrow>
               if idx \<ge> adjcount (rbr_ni dest) then Some (recv_drop (Some p) skb br)
               else (case rbr_find_node (Some r) th_ingressnick of
                   None \<Rightarrow> None
                 | Some None \<Rightarrow> Some (recv_drop (Some p) skb br)
                 | Some (Some source_node) \<Rightarrow>
                     (let idx2 = recv_dtroot_loop th_egressnick
                                   (dtrootnicks (rbr_ni source_node)) 0 in
                      if idx2 \<ge> dtrootcount (rbr_ni source_node) \<and>
                         (dtrootcount (rbr_ni source_node) \<noteq> 0 \<or> th_egressnick \<noteq> dtrNick)
                      then Some (recv_drop (Some p) skb br)
                      else if trill_get_hopcount trill_flags = 0
                      then Some (recv_drop (Some p) skb br)
                      else (case skb_clone skb br of
                          (None, skb1, br1) \<Rightarrow>
                            Some (recv_drop (Some p) skb1
                                    (br1\<lparr>tx_dropped := tx_dropped br1 + 1\<rparr>))
                        | (Some skb2, skb1, br1) \<Rightarrow>
                            (case rbr_multidest_fwd (Some p) skb2 th_egressnick th_ingressnick
                                    (Some srcaddr) vid False br1 of
                               None \<Rightarrow> None
                             | Some (rc, br2) \<Rightarrow>
                                 if rc \<noteq> 0 then Some (recv_drop (Some p) skb1 br2)
                                 else rbr_decaps (Some p) skb1 trhsize vid br2))))))"

text \<open>
  Lines 595--600: the buffer is marked as encapsulated; the pull and the push around
  \<^verbatim>\<open>skb_reset_inner_headers\<close> bring \<^verbatim>\<open>skb->data\<close> back to the TRILL header.
\<close>

definition recv_mark_encapsulated :: "sk_buff \<Rightarrow> nat \<Rightarrow> sk_buff option" where
  "recv_mark_encapsulated skb trhsize =
     (if \<not> encapsulation skb
      then skb_push ((skb_reset_inner_headers (skb_pull skb (trhsize + ETH_HLEN)))
                       \<lparr>encapsulation := True\<rparr>) (trhsize + ETH_HLEN)
      else Some skb)"

text \<open>The buffer after lines 595--600, when it holds the headers.\<close>

definition marked :: "sk_buff \<Rightarrow> sk_buff" where
  "marked skb =
     (if \<not> encapsulation skb
      then (skb_reset_inner_headers skb)\<lparr>encapsulation := True\<rparr> else skb)"

text \<open>
  Line 576 reads \<^verbatim>\<open>th_flags\<close> before any length check.  When fewer than two bytes lie
  behind the Ethernet header the read goes past the tail of the frame; whatever it yields,
  \<^verbatim>\<open>trhsize\<close> is at least the size of the TRILL header and \<^verbatim>\<open>skb->len\<close> is below two, so
  the test of line 578 drops the frame.
\<close>

definition rbr_recv :: "sk_buff \<Rightarrow> u16 \<Rightarrow> net_bridge \<Rightarrow> net_bridge option" where
  "rbr_recv skb vid br =
     (case br_port_get_rcu (dev skb) of
        None \<Rightarrow> Some (recv_drop None skb br)
      | Some p \<Rightarrow> do {
          h_dest \<leftarrow> eth_h_dest skb;
          if port_dev_addr p \<noteq> h_dest then Some (recv_drop (Some p) skb br)
          else do {
            srcaddr \<leftarrow> eth_h_source skb;
            case th_flags_at (head skb) (data skb) of
              None \<Rightarrow> Some (recv_drop (Some p) skb br)
            | Some trill_flags \<Rightarrow>
                (let trhsize = sizeof_trill_hdr + trill_get_optslen trill_flags in
                 if skb_len skb < trhsize + ETH_HLEN then Some (recv_drop (Some p) skb br)
                 else if \<not> pskb_may_pull skb (trhsize + ETH_HLEN)
                 then Some (recv_drop (Some p) skb br)
                 else do {
                   let trh = data skb;
                   skb1 \<leftarrow> recv_mark_encapsulated skb trhsize;
                   th_ingressnick \<leftarrow> th_ingressnick_at (head skb1) trh;
                   th_egressnick \<leftarrow> th_egressnick_at (head skb1) trh;
                   if \<not> VALID_NICK th_ingressnick \<or> \<not> VALID_NICK th_egressnick
                   then Some (recv_drop (Some p) skb1 br)
                   else if trill_get_version trill_flags \<noteq> TRILL_PROTOCOL_VERS
                   then Some (recv_drop (Some p) skb1 br)
                   else (case br_rbr br of
                       None \<Rightarrow> None
                     | Some r \<Rightarrow>
                         (let local_nick = rbr_nick r; dtrNick = rbr_treeroot r in
                          if th_ingressnick = local_nick then Some (recv_drop (Some p) skb1 br)
                          else if trill_get_optslen trill_flags \<noteq> 0
                          then Some (recv_drop (Some p) skb1 br)
                          else if \<not> trill_get_multidest trill_flags
                          then rbr_recv_unicast p skb1 vid srcaddr trill_flags trhsize
                                 th_egressnick th_ingressnick local_nick br
                          else rbr_recv_multidest p r skb1 vid srcaddr trill_flags trhsize
                                 th_egressnick th_ingressnick dtrNick br))
                 })
          }
        })"

section \<open>Observations on the calls made\<close>

text \<open>
  An emitted copy is a buffer handed to \<^verbatim>\<open>br_forward\<close> or \<^verbatim>\<open>br_trill_flood_forward\<close>; a
  local delivery is one handed to \<^verbatim>\<open>br_deliver\<close> or \<^verbatim>\<open>br_endstation_deliver\<close>.
\<close>

fun is_forward :: "event \<Rightarrow> bool" where
  "is_forward (Br_forward p skb) = True"
| "is_forward (Br_trill_flood_forward skb) = True"
| "is_forward (Br_deliver p skb) = False"
| "is_forward (Br_endstation_deliver skb) = False"
| "is_forward (Kfree_skb skb) = False"

fun is_delivery :: "event \<Rightarrow> bool" where
  "is_delivery (Br_forward p skb) = False"
| "is_delivery (Br_trill_flood_forward skb) = False"
| "is_delivery (Br_deliver p skb) = True"
| "is_delivery (Br_endstation_deliver skb) = True"
| "is_delivery (Kfree_skb skb) = False"

fun event_skb :: "event \<Rightarrow> sk_buff" where
  "event_skb (Br_forward p skb) = skb"
| "event_skb (Br_trill_flood_forward skb) = skb"
| "event_skb (Br_deliver p skb) = skb"
| "event_skb (Br_endstation_deliver skb) = skb"
| "event_skb (Kfree_skb skb) = skb"

text \<open>The calls a run has added to the trace of the bridge it started from.\<close>

definition new_events :: "net_bridge \<Rightarrow> net_bridge \<Rightarrow> event list" where
  "new_events br br' = drop (length (trace br)) (trace br')"

text \<open>The Ethernet frame of a buffer: the bytes from the MAC header to the tail.\<close>

definition frame_of :: "sk_buff \<Rightarrow> byte list" where
  "frame_of skb = drop (mac_header skb) (head skb)"

text \<open>
  A buffer that passes the checks of lines 559--622 on port \<open>p\<close> of a bridge with RBridge
  state \<open>r\<close>: the outer destination is the port's address, the buffer holds the TRILL
  header and the inner Ethernet header, both nicknames are valid, the version is right,
  the ingress nickname is not the local one, and there are no options. \<open>s\<close> is the outer
  source address, \<open>fl\<close> the flags word, \<open>eg\<close> and \<open>ing\<close> the nicknames of the header.
\<close>

definition rx_accepted ::
  "net_bridge_port \<Rightarrow> rbr \<Rightarrow> sk_buff \<Rightarrow> ether_addr \<Rightarrow> u16 \<Rightarrow> nickname \<Rightarrow> nickname \<Rightarrow> bool" where
  "rx_accepted p r skb s fl eg ing \<longleftrightarrow>
     br_port_get_rcu (dev skb) = Some p \<and>
     eth_h_dest skb = Some (port_dev_addr p) \<and>
     eth_h_source skb = Some s \<and>
     th_flags_at (head skb) (data skb) = Some fl \<and>
     th_ingressnick_at (head skb) (data skb) = Some ing \<and>
     th_egressnick_at (head skb) (data skb) = Some eg \<and>
     sizeof_trill_hdr + ETH_HLEN \<le> skb_len skb \<and>
     VALID_NICK ing \<and> VALID_NICK eg \<and>
     trill_get_version fl = TRILL_PROTOCOL_VERS \<and>
     ing \<noteq> rbr_nick r \<and>
     trill_get_optslen fl = 0"

text \<open>
  The layout every receive hook finds: \<^verbatim>\<open>skb->data\<close> is just behind the Ethernet header
  at \<^verbatim>\<open>skb->mac_header\<close>.
\<close>

definition rx_layout :: "sk_buff \<Rightarrow> bool" where
  "rx_layout skb \<longleftrightarrow> data skb = mac_header skb + ETH_HLEN"

text \<open>
  The Replicator as the specification words it. An adjacency survives when its nickname
  is valid, is not the ingress nickname, is in the neighbour table, and its address is
  not the source address to prune. \<open>fwd_copies\<close> forwards a fresh copy of the buffer
  to each nickname of a list, in order (it is used where no copy fails).
  \<open>replicator_spec\<close> keeps the original for the first survivor when \<open>free\<close> is set,
  and otherwise copies for every survivor and frees the original.
\<close>

definition survives :: "rbr \<Rightarrow> nickname \<Rightarrow> ether_addr option \<Rightarrow> nickname \<Rightarrow> bool" where
  "survives r ingressnick saddr a \<longleftrightarrow>
     VALID_NICK a \<and> a \<noteq> ingressnick \<and>
     (case rbr_nodes r a of
        None \<Rightarrow> False
      | Some adj \<Rightarrow> saddr \<noteq> Some (adjsnpa (rbr_ni adj)))"

definition survivors ::
  "rbr \<Rightarrow> nickname \<Rightarrow> ether_addr option \<Rightarrow> nickname list \<Rightarrow> nickname list" where
  "survivors r ingressnick saddr adjs = filter (survives r ingressnick saddr) adjs"

fun fwd_copies ::
  "net_bridge_port \<Rightarrow> sk_buff \<Rightarrow> u16 \<Rightarrow> nickname list \<Rightarrow> net_bridge \<Rightarrow> net_bridge option" where
  "fwd_copies p skb vid [] br = Some br"
| "fwd_copies p skb vid (n # ns) br =
     (case skb_copy skb br of
        (None, br1) \<Rightarrow> None
      | (Some skb2, br1) \<Rightarrow> rbr_fwd p skb2 n vid br1 \<bind> fwd_copies p skb vid ns)"

definition replicator_spec ::
  "net_bridge_port \<Rightarrow> sk_buff \<Rightarrow> u16 \<Rightarrow> bool \<Rightarrow> nickname list \<Rightarrow> net_bridge \<Rightarrow>
   net_bridge option" where
  "replicator_spec p skb vid free targets br =
     (case targets of
        [] \<Rightarrow> Some (kfree_skb skb br)
      | n # ns \<Rightarrow>
          if free then fwd_copies p skb vid ns br \<bind> rbr_fwd p skb n vid
          else map_option (kfree_skb skb) (fwd_copies p skb vid (n # ns) br))"

text \<open>An emitted copy is addressed to the neighbour with nickname \<open>a\<close>.\<close>

definition addressed_to :: "rbr \<Rightarrow> nickname \<Rightarrow> event \<Rightarrow> bool" where
  "addressed_to r a e \<longleftrightarrow>
     (case rbr_nodes r a of
        None \<Rightarrow> False
      | Some adj \<Rightarrow> eth_h_dest (event_skb e) = Some (adjsnpa (rbr_ni adj)))"

text \<open>A frame with an 802.1Q tag put in after the two MAC addresses.\<close>

definition vlan_tagged :: "byte list \<Rightarrow> u16 \<Rightarrow> u16 \<Rightarrow> byte list" where
  "vlan_tagged frame proto tci =
     take (2 * ETH_ALEN) frame @ be16_bytes proto @ be16_bytes tci @ drop (2 * ETH_ALEN) frame"

text \<open>
  The distribution-tree root as the specification words it: the first root the local
  node advertises, if it advertises any, and the bridge's tree root otherwise.
\<close>

definition chosen_root :: "rbr \<Rightarrow> rbr_node \<Rightarrow> nickname" where
  "chosen_root r self =
     (if dtrootnicks (rbr_ni self) \<noteq> [] then dtrootnicks (rbr_ni self) ! 0
      else rbr_treeroot r)"

section \<open>A small campus\<close>

text \<open>
  RBridges A, B, C with nicknames 1, 2, 3 and MAC addresses \<open>MA\<close>, \<open>MB\<close>, \<open>MC\<close>, and two
  end stations. Bridge B knows A (the tree root, with adjacencies A and C) and C.
\<close>

definition MA :: ether_addr where "MA = Ether_addr 0x02 0 0 0 0 0x0A"
definition MB :: ether_addr where "MB = Ether_addr 0x02 0 0 0 0 0x0B"
definition MC :: ether_addr where "MC = Ether_addr 0x02 0 0 0 0 0x0C"
definition ES1 :: ether_addr where "ES1 = Ether_addr 0x02 0 0 0 0 0xE1"
definition ES2 :: ether_addr where "ES2 = Ether_addr 0x02 0 0 0 0 0xE2"

definition ex_node :: "ether_addr \<Rightarrow> nickname list \<Rightarrow> nickname list \<Rightarrow> rbr_node" where
  "ex_node snpa adjs roots = \<lparr>rbr_ni = \<lparr>adjsnpa = snpa, adjnicks = adjs, dtrootnicks = roots\<rparr>\<rparr>"

definition ex_port :: "nat \<Rightarrow> ether_addr \<Rightarrow> net_bridge_port" where
  "ex_port n a = \<lparr>port_no = n, port_dev_addr = a\<rparr>"

definition ex_bridge :: "ether_addr \<Rightarrow> rbr option \<Rightarrow> bool list \<Rightarrow> net_bridge" where
  "ex_bridge a r oom =
     \<lparr>br_dev_addr = a, stp_enabled = False, trill_enabled = (r \<noteq> None), br_rbr = r,
      rx_dropped = 0, tx_dropped = 0, fdb = Map.empty, jiffies = 0, alloc_fail = oom,
      trace = []\<rparr>"

definition ex_inner :: "byte list" where
  "ex_inner = addr_bytes ES2 @ addr_bytes ES1 @ [0x08, 0x00] @ [0xDE, 0xAD, 0xBE, 0xEF]"

text \<open>The flags word of a TRILL header with the given multi-destination bit and hop count.\<close>

definition mk_flags :: "bool \<Rightarrow> u16 \<Rightarrow> u16" where
  "mk_flags multidest hop =
     trill_set_version TRILL_PROTOCOL_VERS OR trill_set_hopcount hop OR
     trill_set_multidest (if multidest then 1 else 0)"

definition ex_trill_frame ::
  "ether_addr \<Rightarrow> ether_addr \<Rightarrow> u16 \<Rightarrow> nickname \<Rightarrow> nickname \<Rightarrow> byte list" where
  "ex_trill_frame dst src flags egress ingress =
     addr_bytes dst @ addr_bytes src @ be16_bytes ETH_P_TRILL @
     be16_bytes flags @ host16_bytes egress @ host16_bytes ingress @ ex_inner"

text \<open>
  A buffer as the receive hook gets it: \<open>room\<close> bytes of headroom, the frame, and
  \<^verbatim>\<open>skb->data\<close> just behind the Ethernet header.
\<close>

definition ex_skb :: "net_device \<Rightarrow> nat \<Rightarrow> u16 \<Rightarrow> byte list \<Rightarrow> sk_buff" where
  "ex_skb d room tci frame =
     \<lparr>head = replicate room 0 @ frame, data = room + 14, mac_header = room,
      network_header = room + 14, transport_header = room + 14, inner_mac_header = 0,
      inner_network_header = 0, inner_transport_header = 0, mac_len = 14,
      encapsulation = False, cloned = False, vlan_proto = 0x8100, vlan_tci = tci,
      protocol = 0, dev = d\<rparr>"

definition rbr_B :: rbr where
  "rbr_B = \<lparr>rbr_nick = 2, rbr_treeroot = 1,
            rbr_nodes = [1 \<mapsto> ex_node MA [1, 3] [], 3 \<mapsto> ex_node MC [] [1]]\<rparr>"

definition bridge_B :: net_bridge where "bridge_B = ex_bridge MB (Some rbr_B) []"
definition port_B :: net_bridge_port where "port_B = ex_port 1 MB"

text \<open>A TRILL frame arriving on a port, with the given outer addresses, flags and nicknames.\<close>

definition rx_frame ::
  "net_bridge_port \<Rightarrow> ether_addr \<Rightarrow> ether_addr \<Rightarrow> u16 \<Rightarrow> nickname \<Rightarrow> nickname \<Rightarrow> sk_buff" where
  "rx_frame p dst src flags egress ingress =
     ex_skb (Port_dev p) 0 0 (ex_trill_frame dst src flags egress ingress)"


text \<open>
  An end-station frame from \<open>ES1\<close> to \<open>ES2\<close> on a guest port, with 32 bytes of headroom
  and the given \<^verbatim>\<open>vlan_tci\<close>.
\<close>

definition guest_frame :: "net_bridge_port \<Rightarrow> u16 \<Rightarrow> sk_buff" where
  "guest_frame p tci = ex_skb (Port_dev p) 32 tci ex_inner"

text \<open>
  Encapsulation at one RBridge followed by decapsulation of the same buffer at another:
  the bridge state of the receiving bridge afterwards, when the encapsulation succeeds.
\<close>

definition encaps_then_decaps ::
  "u16 \<Rightarrow> sk_buff \<Rightarrow> nickname \<Rightarrow> nickname \<Rightarrow> net_bridge \<Rightarrow> net_bridge_port \<Rightarrow> u16 \<Rightarrow>
   net_bridge \<Rightarrow> net_bridge option" where
  "encaps_then_decaps hops skb ingressnick egressnick brA p vid brB =
     (case rbr_encaps hops skb ingressnick egressnick False brA of
        Some (False, skb1, brA') \<Rightarrow> rbr_decaps (Some p) skb1 sizeof_trill_hdr vid brB
      | _ \<Rightarrow> None)"

text \<open>
  Bridge A (nickname 1) knows itself, B and C. Its own entry advertises the given
  distribution-tree roots; tree A has the adjacencies B and C, tree C the adjacency B.
\<close>

definition rbr_A :: "nickname list \<Rightarrow> nickname \<Rightarrow> rbr" where
  "rbr_A roots treeroot =
     \<lparr>rbr_nick = 1, rbr_treeroot = treeroot,
      rbr_nodes = [1 \<mapsto> ex_node MA [2, 3] roots, 2 \<mapsto> ex_node MB [] [],
                   3 \<mapsto> ex_node MC [2] []]\<rparr>"

definition port_A :: net_bridge_port where "port_A = ex_port 7 ES1"

section \<open>Auxiliary facts\<close>


subsection \<open>Bytes\<close>

lemma get_bytes_Some:
  "off + n \<le> length buf \<Longrightarrow> get_bytes buf off n = Some (take n (drop off buf))"
  by (simp add: get_bytes_def)

lemma get_bytes_SomeD:
  "get_bytes buf off n = Some bs \<Longrightarrow> off + n \<le> length buf \<and> length bs = n"
  by (auto simp add: get_bytes_def split: if_splits)

lemma put_bytes_SomeD:
  "put_bytes buf off bs = Some buf' \<Longrightarrow>
   off + length bs \<le> length buf \<and> length buf' = length buf"
  by (auto simp add: put_bytes_def split: if_splits)

lemma put_bytes_Some:
  "off + length bs \<le> length buf \<Longrightarrow>
   put_bytes buf off bs = Some (take off buf @ bs @ drop (off + length bs) buf)"
  by (simp add: put_bytes_def)

lemma put_bytes_ex:
  "off + length bs \<le> length buf \<Longrightarrow> \<exists>buf'. put_bytes buf off bs = Some buf'"
  by (simp add: put_bytes_def)

lemma get_put_same:
  "put_bytes buf off bs = Some buf' \<Longrightarrow> get_bytes buf' off (length bs) = Some bs"
  by (auto simp add: put_bytes_def get_bytes_def split: if_splits)

lemma get_put_disjoint:
  "put_bytes buf off bs = Some buf' \<Longrightarrow> off' + n \<le> off \<or> off + length bs \<le> off' \<Longrightarrow>
   get_bytes buf' off' n = get_bytes buf off' n"
  by (auto simp add: put_bytes_def get_bytes_def min_def take_drop split: if_splits)

lemma drop_put_bytes:
  "put_bytes buf off bs = Some buf' \<Longrightarrow> off + length bs \<le> k \<Longrightarrow> drop k buf' = drop k buf"
  by (auto simp add: put_bytes_def split: if_splits)

lemma len2: "length bs = 2 \<Longrightarrow> \<exists>a b. bs = [a, b]"
  by (auto simp add: numeral_2_eq_2 length_Suc_conv)

lemma len6: "length bs = 6 \<Longrightarrow> \<exists>a b c d e f. bs = [a, b, c, d, e, f]"
  by (auto simp add: eval_nat_numeral length_Suc_conv)

lemma be16_of_total: "length bs = 2 \<Longrightarrow> \<exists>w. be16_of bs = Some w"
  by (auto dest: len2)

lemma host16_of_total: "length bs = 2 \<Longrightarrow> \<exists>w. host16_of bs = Some w"
  by (auto dest: len2)

lemma addr_of_total: "length bs = 6 \<Longrightarrow> \<exists>w. addr_of bs = Some w"
  by (auto dest: len6)

lemma be16_roundtrip [simp]: "be16_of (be16_bytes w) = Some w"
  apply (simp add: be16_bytes_def)
  apply (rule bit_word_eqI)
  apply (auto simp add: bit_simps)
  done

lemma host16_roundtrip [simp]: "host16_of (host16_bytes w) = Some w"
  apply (simp add: host16_bytes_def)
  apply (rule bit_word_eqI)
  apply (auto simp add: bit_simps)
  done

lemma addr_roundtrip [simp]: "addr_of (addr_bytes a) = Some a"
  by (cases a) simp

lemma length_be16 [simp]: "length (be16_bytes w) = 2"
  by (simp add: be16_bytes_def)
lemma length_host16 [simp]: "length (host16_bytes w) = 2"
  by (simp add: host16_bytes_def)
lemma length_addr_bytes [simp]: "length (addr_bytes a) = 6"
  by (cases a) simp

subsection \<open>Header fields\<close>

lemma th_flags_readable:
  "off + 2 \<le> length buf \<Longrightarrow> \<exists>f. th_flags_at buf off = Some f"
  by (simp add: th_flags_at_def get_bytes_Some be16_of_total)

lemma th_flags_SomeD: "th_flags_at buf off = Some f \<Longrightarrow> off + 2 \<le> length buf"
  by (auto simp add: th_flags_at_def dest!: get_bytes_SomeD split: bind_splits)

lemma th_ingress_SomeD:
  "th_ingressnick_at buf off = Some n \<Longrightarrow> off + 6 \<le> length buf"
  by (auto simp add: th_ingressnick_at_def dest!: get_bytes_SomeD split: bind_splits)

lemma th_ingress_readable:
  "off + 6 \<le> length buf \<Longrightarrow> \<exists>f. th_ingressnick_at buf off = Some f"
  by (simp add: th_ingressnick_at_def get_bytes_Some host16_of_total)

lemma th_egress_readable:
  "off + 4 \<le> length buf \<Longrightarrow> \<exists>f. th_egressnick_at buf off = Some f"
  by (simp add: th_egressnick_at_def get_bytes_Some host16_of_total)

lemma h_dest_SomeD: "h_dest_at buf off = Some a \<Longrightarrow> off + 6 \<le> length buf"
  by (auto simp add: h_dest_at_def ETH_ALEN_def dest!: get_bytes_SomeD split: bind_splits)

lemma h_source_SomeD: "h_source_at buf off = Some a \<Longrightarrow> off + 12 \<le> length buf"
  by (auto simp add: h_source_at_def ETH_ALEN_def dest!: get_bytes_SomeD split: bind_splits)

lemma h_dest_readable: "off + 6 \<le> length buf \<Longrightarrow> \<exists>a. h_dest_at buf off = Some a"
  by (simp add: h_dest_at_def ETH_ALEN_def get_bytes_Some addr_of_total)

lemma h_source_readable: "off + 12 \<le> length buf \<Longrightarrow> \<exists>a. h_source_at buf off = Some a"
  by (simp add: h_source_at_def ETH_ALEN_def get_bytes_Some addr_of_total)

lemma h_proto_readable: "off + 14 \<le> length buf \<Longrightarrow> \<exists>a. h_proto_at buf off = Some a"
  by (simp add: h_proto_at_def ETH_ALEN_def get_bytes_Some be16_of_total)

text \<open>A field read after a write: at the same place, and at a place the write left alone.\<close>

lemma h_dest_put_same:
  "put_bytes buf off (addr_bytes a) = Some buf' \<Longrightarrow> h_dest_at buf' off = Some a"
  using get_put_same [of buf off "addr_bytes a" buf'] by (simp add: h_dest_at_def ETH_ALEN_def)

lemma h_source_put_same:
  "put_bytes buf (off + 6) (addr_bytes a) = Some buf' \<Longrightarrow> h_source_at buf' off = Some a"
  using get_put_same [of buf "off + 6" "addr_bytes a" buf']
  by (simp add: h_source_at_def ETH_ALEN_def)

lemma th_flags_put_same:
  "put_bytes buf off (be16_bytes w) = Some buf' \<Longrightarrow> th_flags_at buf' off = Some w"
  using get_put_same [of buf off "be16_bytes w" buf'] by (simp add: th_flags_at_def)

lemma th_egress_put_same:
  "put_bytes buf (off + 2) (host16_bytes w) = Some buf' \<Longrightarrow> th_egressnick_at buf' off = Some w"
  using get_put_same [of buf "off + 2" "host16_bytes w" buf'] by (simp add: th_egressnick_at_def)

lemma th_ingress_put_same:
  "put_bytes buf (off + 4) (host16_bytes w) = Some buf' \<Longrightarrow> th_ingressnick_at buf' off = Some w"
  using get_put_same [of buf "off + 4" "host16_bytes w" buf'] by (simp add: th_ingressnick_at_def)

lemma h_dest_put_other:
  "put_bytes buf off' bs = Some buf' \<Longrightarrow> off + 6 \<le> off' \<or> off' + length bs \<le> off \<Longrightarrow>
   h_dest_at buf' off = h_dest_at buf off"
  using get_put_disjoint [of buf off' bs buf' off 6] by (simp add: h_dest_at_def ETH_ALEN_def)

lemma h_source_put_other:
  "put_bytes buf off' bs = Some buf' \<Longrightarrow> off + 12 \<le> off' \<or> off' + length bs \<le> off + 6 \<Longrightarrow>
   h_source_at buf' off = h_source_at buf off"
  using get_put_disjoint [of buf off' bs buf' "off + 6" 6]
  by (auto simp add: h_source_at_def ETH_ALEN_def)

lemma th_flags_put_other:
  "put_bytes buf off' bs = Some buf' \<Longrightarrow> off + 2 \<le> off' \<or> off' + length bs \<le> off \<Longrightarrow>
   th_flags_at buf' off = th_flags_at buf off"
  using get_put_disjoint [of buf off' bs buf' off 2] by (simp add: th_flags_at_def)

lemma th_egress_put_other:
  "put_bytes buf off' bs = Some buf' \<Longrightarrow> off + 4 \<le> off' \<or> off' + length bs \<le> off + 2 \<Longrightarrow>
   th_egressnick_at buf' off = th_egressnick_at buf off"
  using get_put_disjoint [of buf off' bs buf' "off + 2" 2] by (auto simp add: th_egressnick_at_def)

lemma th_ingress_put_other:
  "put_bytes buf off' bs = Some buf' \<Longrightarrow> off + 6 \<le> off' \<or> off' + length bs \<le> off + 4 \<Longrightarrow>
   th_ingressnick_at buf' off = th_ingressnick_at buf off"
  using get_put_disjoint [of buf off' bs buf' "off + 4" 2] by (auto simp add: th_ingressnick_at_def)

subsection \<open>Neighbour table\<close>

lemma rbr_find_node_Some:
  "rbr_find_node (Some r) n = Some (if VALID_NICK n then rbr_nodes r n else None)"
  by (simp add: rbr_find_node_def)

lemma recv_adj_loop_total: "\<exists>i. recv_adj_loop r s ns idx = Some i"
  by (induction ns arbitrary: idx) (auto simp add: rbr_find_node_Some split: option.splits)

subsection \<open>Receive path\<close>

lemma recv_mark_encapsulated_eq:
  "n + ETH_HLEN \<le> skb_len skb \<Longrightarrow>
   recv_mark_encapsulated skb n =
     Some (if \<not> encapsulation skb
           then (skb_reset_inner_headers skb)\<lparr>encapsulation := True\<rparr> else skb)"
  by (simp add: recv_mark_encapsulated_def skb_pull_def skb_push_def skb_len_def
      skb_reset_inner_headers_def)

lemma recv_drop_eq:
  "recv_drop (Some p) skb br =
     br\<lparr>rx_dropped := rx_dropped br + 1, trace := trace br @ [Kfree_skb skb]\<rparr>"
  by (simp add: recv_drop_def kfree_skb_def emit_def)

lemma marked_simps [simp]:
  "head (marked skb) = head skb" "data (marked skb) = data skb"
  "mac_header (marked skb) = mac_header skb" "dev (marked skb) = dev skb"
  by (simp_all add: marked_def skb_reset_inner_headers_def)

text \<open>
  A frame that passes the checks of lines 559--622 reaches the unicast or the
  multi-destination branch.
\<close>

lemma rbr_recv_accepted:
  assumes acc: "rx_accepted p r skb s fl eg ing" and rbr: "br_rbr br = Some r"
  shows "rbr_recv skb vid br =
     (if \<not> trill_get_multidest fl
      then rbr_recv_unicast p (marked skb) vid s fl sizeof_trill_hdr eg ing (rbr_nick r) br
      else rbr_recv_multidest p r (marked skb) vid s fl sizeof_trill_hdr eg ing
             (rbr_treeroot r) br)"
proof -
  from acc have len: "sizeof_trill_hdr + ETH_HLEN \<le> skb_len skb"
    by (simp add: rx_accepted_def)
  have m: "recv_mark_encapsulated skb sizeof_trill_hdr = Some (marked skb)"
    using recv_mark_encapsulated_eq [of sizeof_trill_hdr skb] len by (simp add: marked_def)
  show ?thesis
    using acc rbr m by (simp add: rx_accepted_def rbr_recv_def pskb_may_pull_def Let_def)
qed

lemma unicast_hop0:
  "trill_get_hopcount fl = 0 \<Longrightarrow> eg \<noteq> local \<Longrightarrow>
   rbr_recv_unicast p skb vid s fl n eg ing local br = Some (recv_drop (Some p) skb br)"
  by (simp add: rbr_recv_unicast_def)


lemma multidest_hop0:
  assumes "trill_get_hopcount fl = 0"
  shows "rbr_recv_multidest p r skb vid s fl n eg ing root br = Some (recv_drop (Some p) skb br)"
proof (cases "rbr_find_node (Some r) eg")
  case None
  then show ?thesis by (simp add: rbr_find_node_Some)
next
  case (Some dest)
  show ?thesis
  proof (cases dest)
    case None
    with Some show ?thesis by (simp add: rbr_recv_multidest_def)
  next
    case (Some d)
    obtain i where i: "recv_adj_loop r s (adjnicks (rbr_ni d)) 0 = Some i"
      using recv_adj_loop_total by blast
    from Some \<open>rbr_find_node (Some r) eg = Some dest\<close> i assms show ?thesis
      by (simp add: rbr_recv_multidest_def rbr_find_node_Some Let_def split: option.splits)
  qed
qed

subsection \<open>Forwarder\<close>

lemma rbr_fwd_frame:
  assumes "rbr_fwd p skb n vid br = Some br'"
  shows "br_rbr br' = br_rbr br \<and> alloc_fail br' = alloc_fail br \<and>
         br_dev_addr br' = br_dev_addr br \<and> rx_dropped br' = rx_dropped br \<and>
         jiffies br' = jiffies br \<and> (\<exists>e. trace br' = trace br @ [e])"
  using assms
  by (auto simp add: rbr_fwd_def rbr_fwd_finish_def dest_fwd_fail_def kfree_skb_def emit_def
      br_forward_def br_trill_flood_forward_def Let_def
      split: bind_splits option.splits)

lemma rbr_fwd_forwards:
  assumes rbr: "br_rbr br = Some r" and n: "VALID_NICK n" and a: "rbr_nodes r n = Some a"
    and fl: "th_flags_at (head skb) (data skb) = Some fl"
    and lay: "mac_header skb + 12 \<le> data skb"
  shows "\<exists>e br'. rbr_fwd p skb n vid br = Some br' \<and> trace br' = trace br @ [e] \<and>
           tx_dropped br' = tx_dropped br \<and>
           is_forward e \<and> eth_h_dest (event_skb e) = Some (adjsnpa (rbr_ni a)) \<and>
           th_flags_at (head (event_skb e)) (data (event_skb e)) = Some (trill_dec_hopcount fl) \<and>
           data (event_skb e) = data skb \<and> mac_header (event_skb e) = mac_header skb \<and>
           drop (data skb + 2) (head (event_skb e)) = drop (data skb + 2) (head skb)"
proof -
  let ?h0 = "head skb" and ?d = "data skb" and ?m = "mac_header skb"
  from fl have len: "?d + 2 \<le> length ?h0" by (rule th_flags_SomeD)
  obtain h1 where h1: "put_bytes ?h0 ?d (be16_bytes (trill_dec_hopcount fl)) = Some h1"
    using put_bytes_ex [of ?d "be16_bytes (trill_dec_hopcount fl)" ?h0] len by auto
  have l1: "length h1 = length ?h0" using put_bytes_SomeD [OF h1] by simp
  obtain h2 where h2: "put_bytes h1 (?m + 6) (addr_bytes (br_dev_addr br)) = Some h2"
    using put_bytes_ex [of "?m + 6" "addr_bytes (br_dev_addr br)" h1] len lay l1 by auto
  have l2: "length h2 = length ?h0" using put_bytes_SomeD [OF h2] l1 by simp
  obtain h3 where h3: "put_bytes h2 ?m (addr_bytes (adjsnpa (rbr_ni a))) = Some h3"
    using put_bytes_ex [of ?m "addr_bytes (adjsnpa (rbr_ni a))" h2] len lay l2 by auto
  have l3: "length h3 = length ?h0" using put_bytes_SomeD [OF h3] l2 by simp
  have d3: "h_dest_at h3 ?m = Some (adjsnpa (rbr_ni a))" using h3 by (rule h_dest_put_same)
  have f3: "th_flags_at h3 ?d = Some (trill_dec_hopcount fl)"
    using th_flags_put_same [OF h1] th_flags_put_other [OF h2, of ?d]
      th_flags_put_other [OF h3, of ?d] lay by simp
  have t3: "drop (?d + 2) h3 = drop (?d + 2) ?h0"
    using drop_put_bytes [OF h1, of "?d + 2"] drop_put_bytes [OF h2, of "?d + 2"]
      drop_put_bytes [OF h3, of "?d + 2"] lay by simp
  let ?skb3 = "skb\<lparr>head := h3, dev := Bridge_dev\<rparr>"
  have step: "rbr_fwd p skb n vid br = rbr_fwd_finish ?skb3 vid br"
    using rbr n a fl h1 h2 h3
    by (simp add: rbr_fwd_def rbr_find_node_Some trillhdr_dec_hopcount_def
        set_eth_h_source_def set_eth_h_dest_def ETH_ALEN_def)
  show ?thesis
  proof (cases "br_fdb_get br (adjsnpa (rbr_ni a)) vid")
    case None
    then show ?thesis
      using step d3 f3 t3
      by (simp add: rbr_fwd_finish_def eth_h_dest_def br_trill_flood_forward_def emit_def)
  next
    case (Some dst)
    obtain h4 where h4: "put_bytes h3 (?m + 6) (addr_bytes (port_dev_addr (fdb_dst dst))) = Some h4"
      using put_bytes_ex [of "?m + 6" "addr_bytes (port_dev_addr (fdb_dst dst))" h3] len lay l3
      by auto
    have d4: "h_dest_at h4 ?m = Some (adjsnpa (rbr_ni a))"
      using h_dest_put_other [OF h4, of ?m] d3 by simp
    have f4: "th_flags_at h4 ?d = Some (trill_dec_hopcount fl)"
      using th_flags_put_other [OF h4, of ?d] f3 lay by simp
    have t4: "drop (?d + 2) h4 = drop (?d + 2) ?h0"
      using drop_put_bytes [OF h4, of "?d + 2"] t3 lay by simp
    show ?thesis
      using step d3 Some h4 d4 f4 t4
      by (simp add: rbr_fwd_finish_def eth_h_dest_def br_forward_def emit_def
          set_eth_h_source_def ETH_ALEN_def)
  qed
qed

lemma dec_hopcount_1:
  "trill_get_hopcount fl = 1 \<Longrightarrow> trill_get_hopcount (trill_dec_hopcount fl) = 0"
  apply (simp add: trill_dec_hopcount_def trill_get_hopcount_def trill_set_hopcount_def Let_def)
  apply (rule bit_word_eqI)
  apply (auto simp add: bit_simps)
  done


subsection \<open>Decapsulator\<close>

lemma rbr_decaps_delivers:
  assumes len: "data skb + sizeof_trill_hdr + ETH_HLEN \<le> length (head skb)"
    and n: "sizeof_trill_hdr \<le> n"
  shows "\<exists>e src ing br'. rbr_decaps (Some p) skb n vid br = Some br' \<and>
           trace br' = trace br @ [e] \<and> is_delivery e \<and>
           rx_dropped br' = rx_dropped br \<and> tx_dropped br' = tx_dropped br \<and>
           head (event_skb e) = head skb \<and>
           mac_header (event_skb e) = data skb + sizeof_trill_hdr \<and>
           data (event_skb e) = data skb + sizeof_trill_hdr + ETH_HLEN \<and>
           h_source_at (head skb) (data skb + sizeof_trill_hdr) = Some src \<and>
           th_ingressnick_at (head skb) (data skb) = Some ing \<and>
           fdb br' = (fdb br)((src, vid) \<mapsto> \<lparr>fdb_dst = p, fdb_used = jiffies br, fdb_nick = ing\<rparr>)"
proof -
  let ?h = "head skb" and ?d = "data skb"
  from len have l20: "?d + 20 \<le> length ?h" by (simp add: sizeof_trill_hdr_def ETH_HLEN_def)
  obtain proto where proto: "h_proto_at ?h (?d + 6) = Some proto"
    using h_proto_readable [of "?d + 6" ?h] l20 by auto
  obtain src where src: "h_source_at ?h (?d + 6) = Some src"
    using h_source_readable [of "?d + 6" ?h] l20 by auto
  obtain dst where dst: "h_dest_at ?h (?d + 6) = Some dst"
    using h_dest_readable [of "?d + 6" ?h] l20 by auto
  obtain ing where ing: "th_ingressnick_at ?h ?d = Some ing"
    using th_ingress_readable [of ?d ?h] l20 by auto
  have p1: "skb_pull skb sizeof_trill_hdr = skb\<lparr>data := ?d + 6\<rparr>"
    using l20 by (simp add: skb_pull_def skb_len_def sizeof_trill_hdr_def)
  have p2: "skb_pull (skb\<lparr>data := ?d + 6, mac_header := ?d + 6, protocol := proto\<rparr>) ETH_HLEN =
              skb\<lparr>data := ?d + 20, mac_header := ?d + 6, protocol := proto\<rparr>"
    using l20 by (simp add: skb_pull_def skb_len_def ETH_HLEN_def)
  show ?thesis
    using n proto src dst ing
    by (cases "fdb (br_fdb_update_nick br p src vid ing) (dst, vid)")
       (simp_all add: rbr_decaps_def Let_def p1 p2 skb_reset_mac_header_def
          skb_reset_network_header_def eth_h_proto_def
          rbr_decap_finish_def eth_h_dest_def br_fdb_get_def br_deliver_def
          br_endstation_deliver_def emit_def br_fdb_update_nick_def,
        simp_all add: sizeof_trill_hdr_def ETH_HLEN_def)
qed


subsection \<open>Replicator\<close>



lemma alloc_ok:
  "True \<notin> set (alloc_fail br) \<Longrightarrow>
   alloc br = (True, br\<lparr>alloc_fail := tl (alloc_fail br)\<rparr>)"
  by (cases "alloc_fail br") (auto simp add: alloc_def)

lemma skb_copy_ok:
  "True \<notin> set (alloc_fail br) \<Longrightarrow>
   skb_copy skb br = (Some (skb\<lparr>cloned := False\<rparr>), br\<lparr>alloc_fail := tl (alloc_fail br)\<rparr>)"
  by (simp add: skb_copy_def alloc_ok)

lemma no_fail_tl: "True \<notin> set xs \<Longrightarrow> True \<notin> set (tl xs)"
  by (cases xs) auto

lemma survives_iff:
  "survives r ing saddr a \<longleftrightarrow>
     VALID_NICK a \<and> a \<noteq> ing \<and> (\<exists>adj. rbr_nodes r a = Some adj \<and> saddr \<noteq> Some (adjsnpa (rbr_ni adj)))"
  by (auto simp add: survives_def split: option.splits)

text \<open>Once a nickname is saved, or when none is to be saved, every survivor gets a copy.\<close>

lemma multidest_loop_copies:
  assumes "nicksaved \<or> \<not> free" and "True \<notin> set (alloc_fail br)"
  shows "multidest_loop p r skb ing saddr vid free adjs nicksaved saved br =
           map_option (Pair (Loop_done nicksaved saved))
             (fwd_copies p skb vid (survivors r ing saddr adjs) br)"
  using assms
proof (induction adjs arbitrary: br)
  case Nil
  then show ?case by (simp add: survivors_def)
next
  case (Cons a adjs)
  show ?case
  proof (cases "survives r ing saddr a")
    case False
    then show ?thesis
      using Cons
      by (auto simp add: survivors_def survives_def rbr_find_node_Some split: option.splits)
  next
    case True
    then obtain adj where adj: "VALID_NICK a" "a \<noteq> ing" "rbr_nodes r a = Some adj"
        "saddr \<noteq> Some (adjsnpa (rbr_ni adj))"
      by (auto simp add: survives_iff)
    let ?br1 = "br\<lparr>alloc_fail := tl (alloc_fail br)\<rparr>"
    have c: "skb_copy skb br = (Some (skb\<lparr>cloned := False\<rparr>), ?br1)"
      using Cons.prems by (simp add: skb_copy_ok)
    show ?thesis
    proof (cases "rbr_fwd p (skb\<lparr>cloned := False\<rparr>) a vid ?br1")
      case None
      then show ?thesis
        using True adj c Cons.prems
        by (auto simp add: survivors_def rbr_find_node_Some)
    next
      case (Some br2)
      have "alloc_fail br2 = alloc_fail ?br1" using rbr_fwd_frame [OF Some] by simp
      then have nf: "True \<notin> set (alloc_fail br2)"
        using Cons.prems no_fail_tl [of "alloc_fail br"] by simp
      show ?thesis
        using True adj c Some Cons.prems Cons.IH [OF Cons.prems(1) nf]
        by (auto simp add: survivors_def rbr_find_node_Some)
    qed
  qed
qed

text \<open>With \<open>free\<close> set and nothing saved yet, the first survivor is saved.\<close>

lemma multidest_loop_first:
  assumes "True \<notin> set (alloc_fail br)"
  shows "multidest_loop p r skb ing saddr vid True adjs False saved br =
           (case survivors r ing saddr adjs of
              [] \<Rightarrow> Some (Loop_done False saved, br)
            | n # ns \<Rightarrow> map_option (Pair (Loop_done True n)) (fwd_copies p skb vid ns br))"
  using assms
proof (induction adjs)
  case Nil
  then show ?case by (simp add: survivors_def)
next
  case (Cons a adjs)
  show ?case
  proof (cases "survives r ing saddr a")
    case False
    then show ?thesis
      using Cons
      by (auto simp add: survivors_def survives_def rbr_find_node_Some split: option.splits)
  next
    case True
    then obtain adj where adj: "VALID_NICK a" "a \<noteq> ing" "rbr_nodes r a = Some adj"
        "saddr \<noteq> Some (adjsnpa (rbr_ni adj))"
      by (auto simp add: survives_iff)
    show ?thesis
      using True adj multidest_loop_copies [of True True br p r skb ing saddr vid adjs a] Cons.prems
      by (auto simp add: survivors_def rbr_find_node_Some)
  qed
qed


lemma rbr_fwd_addressed:
  assumes run: "rbr_fwd p skb n vid br = Some br'" and rbr: "br_rbr br = Some r"
  shows "\<exists>e. trace br' = trace br @ [e] \<and> (is_forward e \<longrightarrow> VALID_NICK n \<and> addressed_to r n e)"
proof (cases "VALID_NICK n \<and> rbr_nodes r n \<noteq> None")
  case False
  then show ?thesis
    using run rbr
    by (auto simp add: rbr_fwd_def rbr_find_node_Some dest_fwd_fail_def kfree_skb_def emit_def
        split: if_splits)
next
  case True
  then obtain a where a: "VALID_NICK n" "rbr_nodes r n = Some a" by auto
  from run rbr a obtain skb1 skb2 skb3 where
    s1: "trillhdr_dec_hopcount skb (data skb) = Some skb1" and
    s2: "set_eth_h_source skb1 (br_dev_addr br) = Some skb2" and
    s3: "set_eth_h_dest skb2 (adjsnpa (rbr_ni a)) = Some skb3" and
    fin: "rbr_fwd_finish (skb3\<lparr>dev := Bridge_dev\<rparr>) vid br = Some br'"
    by (auto simp add: rbr_fwd_def rbr_find_node_Some split: bind_splits)
  from s3 have d3: "eth_h_dest skb3 = Some (adjsnpa (rbr_ni a))"
    by (auto simp add: set_eth_h_dest_def eth_h_dest_def dest: h_dest_put_same)
  show ?thesis
  proof (cases "br_fdb_get br (adjsnpa (rbr_ni a)) vid")
    case None
    then show ?thesis
      using fin d3 a
      by (auto simp add: rbr_fwd_finish_def eth_h_dest_def br_trill_flood_forward_def emit_def
          addressed_to_def)
  next
    case (Some dst)
    then obtain skb4 where
      s4: "set_eth_h_source (skb3\<lparr>dev := Bridge_dev\<rparr>) (port_dev_addr (fdb_dst dst)) = Some skb4"
      and br': "br' = br_forward (fdb_dst dst) skb4
                  (br\<lparr>fdb := (fdb br)((adjsnpa (rbr_ni a), vid) \<mapsto> dst\<lparr>fdb_used := jiffies br\<rparr>)\<rparr>)"
      using fin d3
      by (auto simp add: rbr_fwd_finish_def eth_h_dest_def Let_def split: bind_splits)
    from s4 d3 have d4: "eth_h_dest skb4 = Some (adjsnpa (rbr_ni a))"
      using h_dest_put_other [of "head skb3" "mac_header skb3 + 6"
          "addr_bytes (port_dev_addr (fdb_dst dst))" _ "mac_header skb3"]
      by (auto simp add: set_eth_h_source_def eth_h_dest_def ETH_ALEN_def)
    show ?thesis
      using br' d4 a by (simp add: br_forward_def emit_def addressed_to_def)
  qed
qed


lemma rbr_fwd_rbr: "rbr_fwd p skb n vid br = Some br' \<Longrightarrow> br_rbr br' = br_rbr br"
  using rbr_fwd_frame by blast

lemma multidest_loop_targets:
  assumes "multidest_loop p r skb ing saddr vid free adjs ns sv br = Some (ex, br')"
    and "br_rbr br = Some r"
  shows "br_rbr br' = Some r \<and>
         (\<exists>evs. trace br' = trace br @ evs \<and>
            (\<forall>e\<in>set evs. is_forward e \<longrightarrow> (\<exists>a. survives r ing saddr a \<and> addressed_to r a e))) \<and>
         (\<forall>n. ex = Loop_done True n \<longrightarrow> (ns \<and> n = sv) \<or> survives r ing saddr n)"
  using assms
proof (induction adjs arbitrary: ns sv br)
  case Nil
  then show ?case by auto
next
  case (Cons a adjs)
  show ?case
  proof (cases "survives r ing saddr a")
    case False
    then have "multidest_loop p r skb ing saddr vid free (a # adjs) ns sv br =
               multidest_loop p r skb ing saddr vid free adjs ns sv br"
      by (auto simp add: survives_def rbr_find_node_Some split: option.splits)
    with Cons show ?thesis by simp
  next
    case True
    then obtain adj where adj: "VALID_NICK a" "a \<noteq> ing" "rbr_nodes r a = Some adj"
        "saddr \<noteq> Some (adjsnpa (rbr_ni adj))"
      by (auto simp add: survives_iff)
    show ?thesis
    proof (cases "\<not> ns \<and> free")
      case True
      then have "multidest_loop p r skb ing saddr vid free (a # adjs) ns sv br =
               multidest_loop p r skb ing saddr vid free adjs True a br"
        using adj by (auto simp add: rbr_find_node_Some)
      with Cons.prems have run: "multidest_loop p r skb ing saddr vid free adjs True a br = Some (ex, br')"
        by simp
      from Cons.IH [OF run Cons.prems(2)] \<open>survives r ing saddr a\<close> show ?thesis by auto
    next
      case False
      show ?thesis
      proof (cases "skb_copy skb br")
        case (Pair c br1)
        have r1: "br_rbr br1 = Some r" and t1: "trace br1 = trace br"
          using Pair Cons.prems(2)
          by (auto simp add: skb_copy_def alloc_def split: list.splits if_splits bool.splits)
        show ?thesis
        proof (cases c)
          case None
          then show ?thesis
            using Cons.prems adj False Pair r1 t1 by (auto simp add: rbr_find_node_Some)
        next
          case (Some skb2)
          then obtain br2 where f: "rbr_fwd p skb2 a vid br1 = Some br2"
            and run: "multidest_loop p r skb ing saddr vid free adjs ns sv br2 = Some (ex, br')"
            using Cons.prems adj False Pair
            by (auto simp add: rbr_find_node_Some split: option.splits)
          from rbr_fwd_addressed [OF f r1] obtain e where
            e: "trace br2 = trace br1 @ [e]" "is_forward e \<longrightarrow> addressed_to r a e" by auto
          have r2: "br_rbr br2 = Some r" using rbr_fwd_rbr [OF f] r1 by simp
          from Cons.IH [OF run r2] e t1 \<open>survives r ing saddr a\<close> show ?thesis by auto
        qed
      qed
    qed
  qed
qed

lemma rbr_multidest_fwd_targets:
  assumes run: "rbr_multidest_fwd p skb eg ing saddr vid free br = Some (rc, br')"
    and rbr: "br_rbr br = Some r"
  shows "br_rbr br' = Some r \<and>
         (\<exists>evs. trace br' = trace br @ evs \<and>
            (\<forall>e\<in>set evs. is_forward e \<longrightarrow> (\<exists>a. survives r ing saddr a \<and> addressed_to r a e)))"
proof (cases "p = None \<or> \<not> VALID_NICK eg \<or> rbr_nodes r eg = None")
  case True
  then show ?thesis
    using run rbr
    by (auto simp add: rbr_multidest_fwd_def multidest_fwd_fail_def kfree_skb_def emit_def
        rbr_find_node_Some split: option.splits if_splits)
next
  case False
  then obtain port dest where p: "p = Some port" and d: "VALID_NICK eg" "rbr_nodes r eg = Some dest"
    by auto
  from run rbr p d obtain ex br1 where
    loop: "multidest_loop port r skb ing saddr vid free (adjnicks (rbr_ni dest)) False 0 br = Some (ex, br1)"
    by (auto simp add: rbr_multidest_fwd_def rbr_find_node_Some split: option.splits)
  from multidest_loop_targets [OF loop rbr] obtain evs where
    r1: "br_rbr br1 = Some r" and t1: "trace br1 = trace br @ evs" and
    ok: "\<forall>e\<in>set evs. is_forward e \<longrightarrow> (\<exists>a. survives r ing saddr a \<and> addressed_to r a e)" and
    sv: "\<forall>n. ex = Loop_done True n \<longrightarrow> survives r ing saddr n"
    by auto
  show ?thesis
  proof (cases ex)
    case Loop_fail
    then show ?thesis
      using run rbr p d loop r1 t1 ok
      by (auto simp add: rbr_multidest_fwd_def rbr_find_node_Some multidest_fwd_fail_def
          kfree_skb_def emit_def)
  next
    case (Loop_done saved n)
    show ?thesis
    proof (cases saved)
      case False
      then show ?thesis
        using run rbr p d loop r1 t1 ok Loop_done
        by (auto simp add: rbr_multidest_fwd_def rbr_find_node_Some kfree_skb_def emit_def)
    next
      case True
      then have f: "rbr_fwd port skb n vid br1 = Some br'"
        using run rbr p d loop Loop_done
        by (auto simp add: rbr_multidest_fwd_def rbr_find_node_Some)
      from rbr_fwd_addressed [OF f r1] obtain e where
        e: "trace br' = trace br1 @ [e]" "is_forward e \<longrightarrow> addressed_to r n e" by auto
      have "survives r ing saddr n" using sv Loop_done True by simp
      then show ?thesis
        using e t1 ok rbr_fwd_rbr [OF f] r1 by auto
    qed
  qed
qed


lemma recv_drop_events:
  "\<exists>evs. trace (recv_drop p skb br) = trace br @ evs \<and> (\<forall>e\<in>set evs. \<not> is_forward e) \<and>
     br_rbr (recv_drop p skb br) = br_rbr br"
  by (simp add: recv_drop_def kfree_skb_def emit_def)

lemma rbr_decaps_events:
  assumes "rbr_decaps p skb n vid br = Some br'"
  shows "\<exists>evs. trace br' = trace br @ evs \<and> (\<forall>e\<in>set evs. \<not> is_forward e)"
  using assms
  by (auto simp add: rbr_decaps_def rbr_decaps_drop_def kfree_skb_def emit_def Let_def
      rbr_decap_finish_def br_deliver_def br_endstation_deliver_def br_fdb_update_nick_def
      split: option.splits if_splits bind_splits)

lemma skb_clone_frame:
  "skb_clone skb br = (c, skb1, br1) \<Longrightarrow> trace br1 = trace br \<and> br_rbr br1 = br_rbr br \<and>
     tx_dropped br1 = tx_dropped br \<and> rx_dropped br1 = rx_dropped br"
  by (auto simp add: skb_clone_def alloc_def split: list.splits bool.splits)

lemma rbr_recv_multidest_targets:
  assumes run: "rbr_recv_multidest p r skb vid S fl n eg ing root br = Some br'"
    and rbr: "br_rbr br = Some r"
  shows "\<exists>evs. trace br' = trace br @ evs \<and>
           (\<forall>e\<in>set evs. is_forward e \<longrightarrow> (\<exists>a. survives r ing (Some S) a \<and> addressed_to r a e))"
proof (cases "\<exists>skb'. br' = recv_drop (Some p) skb' br")
  case True
  then show ?thesis using recv_drop_events [of "Some p" _ br] by fastforce
next
  case False
  obtain c skb1 br1 where cl: "skb_clone skb br = (c, skb1, br1)"
    by (cases "skb_clone skb br") auto
  note fr = skb_clone_frame [OF cl]
  show ?thesis
  proof (cases c)
    case None
    then show ?thesis
      using run False cl fr recv_drop_events [of "Some p" skb1 "br1\<lparr>tx_dropped := tx_dropped br1 + 1\<rparr>"]
      by (auto simp add: rbr_recv_multidest_def rbr_find_node_Some Let_def
          split: option.splits if_splits)
  next
    case (Some skb2)
    with run False cl obtain rc br2 where
      m: "rbr_multidest_fwd (Some p) skb2 eg ing (Some S) vid False br1 = Some (rc, br2)" and
      fin: "(if rc \<noteq> 0 then Some (recv_drop (Some p) skb1 br2)
             else rbr_decaps (Some p) skb1 n vid br2) = Some br'"
      by (auto simp add: rbr_recv_multidest_def rbr_find_node_Some Let_def
          split: option.splits if_splits)
    from rbr_multidest_fwd_targets [OF m] fr rbr obtain evs where
      e1: "trace br2 = trace br @ evs"
      "\<forall>e\<in>set evs. is_forward e \<longrightarrow> (\<exists>a. survives r ing (Some S) a \<and> addressed_to r a e)"
      by auto
    from fin obtain evs2 where "trace br' = trace br2 @ evs2" "\<forall>e\<in>set evs2. \<not> is_forward e"
      using recv_drop_events [of "Some p" skb1 br2] rbr_decaps_events [of "Some p" skb1 n vid br2 br']
      by (auto split: if_splits)
    with e1 show ?thesis by auto
  qed
qed


subsection \<open>Encapsulator\<close>


lemma skb_push_Some: "n \<le> data skb \<Longrightarrow> skb_push skb n = Some (skb\<lparr>data := data skb - n\<rparr>)"
  by (simp add: skb_push_def)

lemma skb_push_SomeD: "skb_push skb n = Some skb' \<Longrightarrow> n \<le> data skb \<and> skb' = skb\<lparr>data := data skb - n\<rparr>"
  by (auto simp add: skb_push_def split: if_splits)

lemma ALIGN_ge: "x \<le> ALIGN x NET_SKB_PAD"
proof -
  have "x \<le> ((x + 31) div 32) * 32" by presburger
  then show ?thesis by (simp add: ALIGN_def NET_SKB_PAD_def)
qed

lemma put_bytes_drop:
  "put_bytes buf off bs = Some buf' \<Longrightarrow> drop off buf' = bs @ drop (off + length bs) buf"
  by (auto simp add: put_bytes_def split: if_splits)

lemma put_bytes_take:
  "put_bytes buf off bs = Some buf' \<Longrightarrow> k \<le> off \<Longrightarrow> take k buf' = take k buf"
  by (auto simp add: put_bytes_def min_def split: if_splits)

text \<open>A successful \<^verbatim>\<open>skb_cow_head\<close> keeps the bytes from every offset on and gives the headroom.\<close>

lemma skb_cow_head_ok:
  assumes "skb_cow_head skb n br = (True, skb', br')"
  shows "n \<le> data skb' \<and> data skb \<le> data skb' \<and>
         drop (data skb') (head skb') = drop (data skb) (head skb) \<and>
         length (head skb') + data skb = length (head skb) + data skb' \<and>
         mac_header skb' - mac_header skb = data skb' - data skb \<and>
         mac_header skb \<le> mac_header skb' \<and>
         encapsulation skb' = encapsulation skb \<and> vlan_proto skb' = vlan_proto skb \<and>
         vlan_tci skb' = vlan_tci skb \<and> dev skb' = dev skb \<and>
         trace br' = trace br \<and> tx_dropped br' = tx_dropped br \<and> br_rbr br' = br_rbr br \<and>
         fdb br' = fdb br \<and> rx_dropped br' = rx_dropped br \<and> br_dev_addr br' = br_dev_addr br"
  using assms ALIGN_ge [of "n - data skb"]
  by (auto simp add: skb_cow_head_def skb_headroom_def Let_def alloc_def pskb_expand_head_def
      split: if_splits list.splits bool.splits)

lemma skb_cow_head_fail:
  assumes "skb_cow_head skb n br = (False, skb', br')"
  shows "skb' = skb \<and> trace br' = trace br \<and> tx_dropped br' = tx_dropped br \<and>
         br_rbr br' = br_rbr br \<and> rx_dropped br' = rx_dropped br"
  using assms
  by (auto simp add: skb_cow_head_def skb_headroom_def Let_def alloc_def
      split: if_splits list.splits bool.splits)


lemma put_bytes_append:
  "put_bytes buf off (xs @ ys) =
     put_bytes buf off xs \<bind> (\<lambda>b. put_bytes b (off + length xs) ys)"
  by (auto simp add: put_bytes_def ac_simps)

lemma put_bytes_3:
  assumes "put_bytes buf off (xs @ ys @ zs) = Some b3"
  shows "\<exists>b1 b2. put_bytes buf off xs = Some b1 \<and>
           put_bytes b1 (off + length xs) ys = Some b2 \<and>
           put_bytes b2 (off + length xs + length ys) zs = Some b3"
  using assms
  by (auto simp add: put_bytes_append [of buf off xs] put_bytes_append [of _ "off + length xs" ys]
      split: bind_splits)

lemma get_bytes_via_drop:
  assumes "drop d buf = pre @ bs @ rest" and "length pre = k" and "length bs = n" and "0 < n"
  shows "get_bytes buf (d + k) n = Some bs"
proof -
  have "length (drop d buf) = k + n + length rest" using assms by simp
  then have len: "d + k + n \<le> length buf" using assms(4) by simp
  have "take n (drop (d + k) buf) = take n (drop k (drop d buf))" by (simp add: add.commute)
  also have "\<dots> = bs" using assms by simp
  finally show ?thesis using len by (simp add: get_bytes_def)
qed

lemma trill_hdr_fields:
  assumes "drop d buf = be16_bytes f @ host16_bytes e @ host16_bytes i @ rest"
  shows "th_flags_at buf d = Some f \<and> th_egressnick_at buf d = Some e \<and>
         th_ingressnick_at buf d = Some i \<and> drop (d + 6) buf = rest \<and> d + 6 \<le> length buf"
proof -
  have f: "get_bytes buf (d + 0) 2 = Some (be16_bytes f)"
    using assms by (intro get_bytes_via_drop [where pre = "[]"]) auto
  have e: "get_bytes buf (d + 2) 2 = Some (host16_bytes e)"
    using assms by (intro get_bytes_via_drop [where pre = "be16_bytes f"]) auto
  have i: "get_bytes buf (d + 4) 2 = Some (host16_bytes i)"
    using assms
    by (intro get_bytes_via_drop [where pre = "be16_bytes f @ host16_bytes e"]) auto
  have "drop 6 (drop d buf) = rest" using assms by simp
  then have r: "drop (d + 6) buf = rest" by (simp add: add.commute)
  have "length (drop d buf) = 6 + length rest" using assms by simp
  then have "d + 6 \<le> length buf" by simp
  with f e i r show ?thesis
    by (simp add: th_flags_at_def th_egressnick_at_def th_ingressnick_at_def)
qed

lemma rbr_encaps_hdr_ok:
  assumes room: "sizeof_trill_hdr + ETH_HLEN \<le> data skb" and len: "data skb \<le> length (head skb)"
  shows "\<exists>skb'. rbr_encaps_hdr hops skb ing eg md = Some skb' \<and>
           data skb' = data skb - sizeof_trill_hdr \<and>
           mac_header skb' = data skb - sizeof_trill_hdr - ETH_HLEN \<and>
           drop (data skb') (head skb') =
             be16_bytes (mk_flags md hops) @ host16_bytes eg @ host16_bytes ing @
             drop (data skb) (head skb) \<and>
           eth_h_proto skb' = Some ETH_P_TRILL \<and> dev skb' = dev skb"
proof -
  let ?d = "data skb" and ?h = "head skb"
  let ?hdr = "be16_bytes (mk_flags md hops) @ host16_bytes eg @ host16_bytes ing"
  from room have d20: "20 \<le> ?d" by (simp add: sizeof_trill_hdr_def ETH_HLEN_def)
  obtain h3 where h3: "put_bytes ?h (?d - 6) ?hdr = Some h3"
    using put_bytes_ex [of "?d - 6" ?hdr ?h] d20 len by auto
  have l3: "length h3 = length ?h" using put_bytes_SomeD [OF h3] by simp
  have dr3: "drop (?d - 6) h3 = ?hdr @ drop ?d ?h"
    using put_bytes_drop [OF h3] d20 by simp
  have b4: "?d - 8 + length (be16_bytes ETH_P_TRILL) \<le> length h3" using d20 len l3 by simp
  obtain h4 where h4: "put_bytes h3 (?d - 8) (be16_bytes ETH_P_TRILL) = Some h4"
    using put_bytes_ex [OF b4] by auto
  have dr4: "drop (?d - 6) h4 = drop (?d - 6) h3"
    using drop_put_bytes [OF h4, of "?d - 6"] d20 by simp
  have "get_bytes h4 (?d - 20 + 12) 2 = Some (be16_bytes ETH_P_TRILL)"
    using get_put_same [OF h4] d20 by simp
  then have pr: "h_proto_at h4 (?d - 20) = Some ETH_P_TRILL"
    by (simp add: h_proto_at_def ETH_ALEN_def)
  have l4: "length h4 = length ?h" using put_bytes_SomeD [OF h4] l3 by simp
  from put_bytes_3 [OF h3, unfolded length_be16 length_host16] obtain h1 h2 where
    h1: "put_bytes ?h (?d - 6) (be16_bytes (mk_flags md hops)) = Some h1" and
    h2: "put_bytes h1 (?d - 6 + 2) (host16_bytes eg) = Some h2" and
    h3'': "put_bytes h2 (?d - 6 + 2 + 2) (host16_bytes ing) = Some h3"
    by blast
  have e4: "?d - 6 + 2 + 2 = ?d - 6 + 4" by simp
  have h3': "put_bytes h2 (?d - 6 + 4) (host16_bytes ing) = Some h3"
    using h3'' unfolding e4 .
  have "rbr_encaps_hdr hops skb ing eg md =
          Some (skb_reset_mac_len (skb\<lparr>data := ?d - 6, head := h4, mac_header := ?d - 20\<rparr>))"
    using d20 len h1 h2 h3' h4 l4
    by (auto simp add: rbr_encaps_hdr_def skb_push_def sizeof_trill_hdr_def ETH_HLEN_def Let_def
        mk_flags_def set_eth_h_proto_def skb_reset_mac_header_def ETH_ALEN_def
        skb_pull_def skb_len_def skb_reset_mac_len_def)
  then show ?thesis
    using dr3 dr4 pr d20
    by (simp add: skb_reset_mac_len_def sizeof_trill_hdr_def ETH_HLEN_def eth_h_proto_def)
qed


lemma put_bytes_3I:
  assumes "put_bytes buf off xs = Some b1"
    and "put_bytes b1 (off + length xs) ys = Some b2"
    and "put_bytes b2 (off + length xs + length ys) zs = Some b3"
  shows "put_bytes buf off (xs @ ys @ zs) = Some b3"
  using assms
  by (simp add: put_bytes_append [of buf off xs] put_bytes_append [of _ "off + length xs" ys])

lemma vlan_insert_tag_ok:
  assumes run: "vlan_insert_tag skb proto tci br = Some (Some skb', br')"
  shows "drop (data skb') (head skb') = vlan_tagged (drop (data skb) (head skb)) proto tci \<and>
         data skb' \<le> length (head skb') \<and>
         encapsulation skb' = encapsulation skb \<and> dev skb' = dev skb \<and>
         trace br' = trace br \<and> tx_dropped br' = tx_dropped br \<and> br_rbr br' = br_rbr br \<and>
         fdb br' = fdb br \<and> rx_dropped br' = rx_dropped br \<and> br_dev_addr br' = br_dev_addr br"
proof -
  obtain ok skb1 br1 where cow: "skb_cow_head skb VLAN_HLEN br = (ok, skb1, br1)"
    by (cases "skb_cow_head skb VLAN_HLEN br") auto
  have ok: ok using run cow by (cases ok) (auto simp add: vlan_insert_tag_def)
  note c = skb_cow_head_ok [OF cow [unfolded ok [THEN eqTrueI]]]
  let ?P = "drop (data skb) (head skb)"
  let ?o = "data skb1 - 4" and ?h = "head skb1"
  from c have d4: "4 \<le> data skb1" and P: "drop (data skb1) ?h = ?P"
    by (simp_all add: VLAN_HLEN_def)
  from run cow ok d4 obtain macs h1 h2 h3 where
    macs: "get_bytes ?h (?o + 4) 12 = Some macs" and
    h1: "put_bytes ?h ?o macs = Some h1" and
    h2: "put_bytes h1 (?o + 12) (be16_bytes proto) = Some h2" and
    h3: "put_bytes h2 (?o + 12 + 2) (be16_bytes tci) = Some h3" and
    res: "skb' = skb1\<lparr>data := ?o, head := h3, mac_header := mac_header skb1 - 4\<rparr>"
      "br' = br1"
    by (auto simp add: vlan_insert_tag_def skb_push_def VLAN_HLEN_def ETH_ALEN_def
        split: bind_splits)
  have o4: "?o + 4 = data skb1" using d4 by simp
  from macs have ml: "length macs = 12" and mb: "data skb1 + 12 \<le> length ?h"
    and mv: "macs = take 12 (drop (data skb1) ?h)"
    unfolding o4 by (auto simp add: get_bytes_def split: if_splits)
  have h2': "put_bytes h1 (?o + length macs) (be16_bytes proto) = Some h2"
    using h2 ml by simp
  have h3': "put_bytes h2 (?o + length macs + length (be16_bytes proto)) (be16_bytes tci) = Some h3"
    using h3 ml by simp
  have all: "put_bytes ?h ?o (macs @ be16_bytes proto @ be16_bytes tci) = Some h3"
    by (rule put_bytes_3I [OF h1 h2' h3'])
  have "drop ?o h3 = (macs @ be16_bytes proto @ be16_bytes tci) @ drop (?o + 16) ?h"
    using put_bytes_drop [OF all] ml by simp
  moreover have "?o + 16 = data skb1 + 12" using d4 by simp
  moreover have "drop (data skb1 + 12) ?h = drop 12 (drop (data skb1) ?h)"
    by (simp add: add.commute)
  ultimately have "drop ?o h3 = vlan_tagged ?P proto tci"
    using mv P by (simp add: vlan_tagged_def ETH_ALEN_def)
  moreover have "length h3 = length ?h" using put_bytes_SomeD [OF all] by simp
  ultimately show ?thesis
    using res c mb by simp
qed


lemma rbr_encaps_vlan_ok:
  assumes run: "rbr_encaps_vlan skb br = Some (Some skb', br')"
    and len: "data skb \<le> length (head skb)"
  shows "drop (data skb') (head skb') =
           (case br_vlan_get_tag skb of
              None \<Rightarrow> drop (data skb) (head skb)
            | Some tci \<Rightarrow> vlan_tagged (drop (data skb) (head skb)) (vlan_proto skb) tci) \<and>
         data skb' \<le> length (head skb') \<and> dev skb' = dev skb \<and>
         trace br' = trace br \<and> tx_dropped br' = tx_dropped br \<and> br_rbr br' = br_rbr br \<and>
         fdb br' = fdb br \<and> rx_dropped br' = rx_dropped br \<and> br_dev_addr br' = br_dev_addr br"
proof (cases "br_vlan_get_tag skb")
  case None
  then show ?thesis using run len by (simp add: rbr_encaps_vlan_def)
next
  case (Some tci)
  with run obtain skb1 where
    v: "vlan_insert_tag skb (vlan_proto skb) tci br = Some (Some skb1, br')" and
    s: "skb' = skb1\<lparr>vlan_proto := 0, vlan_tci := 0\<rparr>"
    by (auto simp add: rbr_encaps_vlan_def split: option.splits)
  from vlan_insert_tag_ok [OF v] s Some show ?thesis by simp
qed

lemma rbr_encaps_vlan_events:
  assumes run: "rbr_encaps_vlan skb br = Some (res, br')"
  shows "tx_dropped br' = tx_dropped br \<and> br_rbr br' = br_rbr br \<and>
         rx_dropped br' = rx_dropped br \<and>
         (\<exists>evs. trace br' = trace br @ evs \<and> (\<forall>e\<in>set evs. \<not> is_forward e \<and> \<not> is_delivery e) \<and>
            (res \<noteq> None \<longrightarrow> evs = []))"
proof (cases "br_vlan_get_tag skb")
  case None
  then show ?thesis using run by (simp add: rbr_encaps_vlan_def)
next
  case (Some tci)
  obtain ok skb1 br1 where cow: "skb_cow_head skb VLAN_HLEN br = (ok, skb1, br1)"
    by (cases "skb_cow_head skb VLAN_HLEN br") auto
  show ?thesis
  proof (cases ok)
    case True
    with cow run Some have "br' = br1"
      by (auto simp add: rbr_encaps_vlan_def vlan_insert_tag_def split: option.splits bind_splits)
    with skb_cow_head_ok [OF cow [unfolded True [THEN eqTrueI]]] show ?thesis by simp
  next
    case False
    with cow run Some have "br' = kfree_skb skb1 br1" "res = None"
      by (auto simp add: rbr_encaps_vlan_def vlan_insert_tag_def split: option.splits bind_splits)
    with skb_cow_head_fail [OF cow [unfolded False [THEN Eq_FalseI]]] show ?thesis
      by (simp add: kfree_skb_def emit_def)
  qed
qed

lemma rbr_encaps_ok:
  assumes run: "rbr_encaps hops skb ing eg md br = Some (False, skb', br')"
    and len: "data skb \<le> length (head skb)"
  shows "ETH_HLEN \<le> data skb \<and>
         drop (data skb') (head skb') =
           be16_bytes (mk_flags md hops) @ host16_bytes eg @ host16_bytes ing @
           (case br_vlan_get_tag skb of
              None \<Rightarrow> drop (data skb - ETH_HLEN) (head skb)
            | Some tci \<Rightarrow>
                vlan_tagged (drop (data skb - ETH_HLEN) (head skb)) (vlan_proto skb) tci) \<and>
         mac_header skb' + ETH_HLEN = data skb' \<and> eth_h_proto skb' = Some ETH_P_TRILL \<and>
         dev skb' = dev skb \<and>
         trace br' = trace br \<and> tx_dropped br' = tx_dropped br \<and> br_rbr br' = br_rbr br \<and>
         fdb br' = fdb br \<and> rx_dropped br' = rx_dropped br \<and> br_dev_addr br' = br_dev_addr br"
proof -
  from run have d14: "ETH_HLEN \<le> data skb"
    by (auto simp add: rbr_encaps_def skb_push_def split: bind_splits if_splits)
  let ?skb1 = "skb\<lparr>data := data skb - ETH_HLEN\<rparr>"
  let ?skb2 = "if \<not> encapsulation ?skb1
                 then (skb_reset_inner_headers ?skb1)\<lparr>encapsulation := True\<rparr> else ?skb1"
  have s2: "head ?skb2 = head skb" "data ?skb2 = data skb - ETH_HLEN" "dev ?skb2 = dev skb"
    "br_vlan_get_tag ?skb2 = br_vlan_get_tag skb" "vlan_proto ?skb2 = vlan_proto skb"
    by (simp_all add: skb_reset_inner_headers_def br_vlan_get_tag_def)
  from run d14 obtain skb3 br1 ok skb4 br2 where
    v: "rbr_encaps_vlan ?skb2 br = Some (Some skb3, br1)" and
    cow: "skb_cow_head skb3 (sizeof_trill_hdr + ETH_HLEN) br1 = (ok, skb4, br2)" and
    fin: "ok" "rbr_encaps_hdr hops skb4 ing eg md = Some skb'" "br' = br2"
    by (auto simp add: rbr_encaps_def skb_push_def Let_def
        split: bind_splits option.splits prod.splits bool.splits)
  have l2: "data ?skb2 \<le> length (head ?skb2)"
    using len by (auto simp add: skb_reset_inner_headers_def)
  note a = rbr_encaps_vlan_ok [OF v l2, unfolded s2]
  note c = skb_cow_head_ok [OF cow [unfolded fin(1) [THEN eqTrueI]]]
  have room: "sizeof_trill_hdr + ETH_HLEN \<le> data skb4" using c by simp
  have l4: "data skb4 \<le> length (head skb4)" using c a by auto
  from rbr_encaps_hdr_ok [OF room l4, of hops ing eg md] fin(2) room
  have "data skb' = data skb4 - sizeof_trill_hdr"
    "mac_header skb' = data skb4 - sizeof_trill_hdr - ETH_HLEN"
    "drop (data skb') (head skb') =
       be16_bytes (mk_flags md hops) @ host16_bytes eg @ host16_bytes ing @
       drop (data skb4) (head skb4)"
    "eth_h_proto skb' = Some ETH_P_TRILL" "dev skb' = dev skb4"
    by auto
  then show ?thesis
    using d14 a c fin(3) room by (auto simp add: sizeof_trill_hdr_def ETH_HLEN_def)
qed


lemma get_bytes_drop:
  "0 < n \<Longrightarrow> get_bytes (drop d buf) k n = get_bytes buf (d + k) n"
  by (auto simp add: get_bytes_def add.commute)

lemma h_source_at_drop: "h_source_at buf off = h_source_at (drop off buf) 0"
  by (simp add: h_source_at_def get_bytes_drop ETH_ALEN_def)

lemma h_source_at_tagged:
  "2 * ETH_ALEN \<le> length F \<Longrightarrow> h_source_at (vlan_tagged F proto tci) 0 = h_source_at F 0"
  by (simp add: h_source_at_def get_bytes_def vlan_tagged_def ETH_ALEN_def drop_take)




lemma rbr_fwd_keeps_payload:
  assumes run: "rbr_fwd p skb n vid br = Some br'" and lay: "mac_header skb + 12 \<le> data skb"
  shows "\<exists>e. trace br' = trace br @ [e] \<and> data (event_skb e) = data skb \<and>
           drop (data skb + 2) (head (event_skb e)) = drop (data skb + 2) (head skb)"
proof (cases "rbr_find_node (br_rbr br) n")
  case None
  with run show ?thesis by (simp add: rbr_fwd_def)
next
  case (Some adj)
  show ?thesis
  proof (cases adj)
    case None
    with Some run show ?thesis
      by (auto simp add: rbr_fwd_def dest_fwd_fail_def kfree_skb_def emit_def)
  next
    case (Some a)
    let ?d = "data skb" and ?m = "mac_header skb"
    from run \<open>rbr_find_node (br_rbr br) n = Some adj\<close> Some obtain fl h1 h2 h3 where
      h1: "put_bytes (head skb) ?d (be16_bytes (trill_dec_hopcount fl)) = Some h1" and
      h2: "put_bytes h1 (?m + 6) (addr_bytes (br_dev_addr br)) = Some h2" and
      h3: "put_bytes h2 ?m (addr_bytes (adjsnpa (rbr_ni a))) = Some h3" and
      fin: "rbr_fwd_finish (skb\<lparr>head := h3, dev := Bridge_dev\<rparr>) vid br = Some br'"
      by (auto simp add: rbr_fwd_def trillhdr_dec_hopcount_def set_eth_h_source_def
          set_eth_h_dest_def ETH_ALEN_def split: bind_splits)
    have t3: "drop (?d + 2) h3 = drop (?d + 2) (head skb)"
      using drop_put_bytes [OF h1, of "?d + 2"] drop_put_bytes [OF h2, of "?d + 2"]
        drop_put_bytes [OF h3, of "?d + 2"] lay by simp
    show ?thesis
    proof (cases "\<exists>dest dst. eth_h_dest (skb\<lparr>head := h3, dev := Bridge_dev\<rparr>) = Some dest \<and>
                    br_fdb_get br dest vid = Some dst")
      case False
      with fin t3 show ?thesis
        by (auto simp add: rbr_fwd_finish_def br_trill_flood_forward_def emit_def
            split: bind_splits option.splits)
    next
      case True
      then obtain dest dst where
        d: "eth_h_dest (skb\<lparr>head := h3, dev := Bridge_dev\<rparr>) = Some dest"
        "br_fdb_get br dest vid = Some dst" by auto
      with fin have "\<exists>h4. put_bytes h3 (?m + 6) (addr_bytes (port_dev_addr (fdb_dst dst))) = Some h4 \<and>
           br' = br_forward (fdb_dst dst) (skb\<lparr>dev := Bridge_dev, head := h4\<rparr>)
                  (br\<lparr>fdb := (fdb br)((dest, vid) \<mapsto> dst\<lparr>fdb_used := jiffies br\<rparr>)\<rparr>)"
        by (auto simp add: rbr_fwd_finish_def Let_def set_eth_h_source_def ETH_ALEN_def
            split: bind_splits)
      then obtain h4 where
        h4: "put_bytes h3 (?m + 6) (addr_bytes (port_dev_addr (fdb_dst dst))) = Some h4" and
        br': "br' = br_forward (fdb_dst dst) (skb\<lparr>dev := Bridge_dev, head := h4\<rparr>)
                  (br\<lparr>fdb := (fdb br)((dest, vid) \<mapsto> dst\<lparr>fdb_used := jiffies br\<rparr>)\<rparr>)"
        by blast
      have "drop (?d + 2) h4 = drop (?d + 2) (head skb)"
        using drop_put_bytes [OF h4, of "?d + 2"] t3 lay by simp
      with br' show ?thesis by (simp add: br_forward_def emit_def)
    qed
  qed
qed

text \<open>Every buffer the adjacency loop hands on keeps the buffer's bytes behind the flags word.\<close>

lemma multidest_loop_payload:
  assumes "multidest_loop p r skb ing saddr vid free adjs ns sv br = Some (ex, br')"
    and "mac_header skb + 12 \<le> data skb"
  shows "\<exists>evs. trace br' = trace br @ evs \<and>
            (\<forall>e\<in>set evs. data (event_skb e) = data skb \<and>
               drop (data skb + 2) (head (event_skb e)) = drop (data skb + 2) (head skb))"
  using assms
proof (induction adjs arbitrary: ns sv br)
  case Nil
  then show ?case by auto
next
  case (Cons a adjs)
  show ?case
  proof (cases "survives r ing saddr a")
    case False
    then have "multidest_loop p r skb ing saddr vid free (a # adjs) ns sv br =
               multidest_loop p r skb ing saddr vid free adjs ns sv br"
      by (auto simp add: survives_def rbr_find_node_Some split: option.splits)
    with Cons show ?thesis by simp
  next
    case True
    then obtain adj where adj: "VALID_NICK a" "a \<noteq> ing" "rbr_nodes r a = Some adj"
        "saddr \<noteq> Some (adjsnpa (rbr_ni adj))"
      by (auto simp add: survives_iff)
    show ?thesis
    proof (cases "\<not> ns \<and> free")
      case True
      then have "multidest_loop p r skb ing saddr vid free (a # adjs) ns sv br =
               multidest_loop p r skb ing saddr vid free adjs True a br"
        using adj by (auto simp add: rbr_find_node_Some)
      with Cons.prems have run: "multidest_loop p r skb ing saddr vid free adjs True a br = Some (ex, br')"
        by simp
      from Cons.IH [OF run Cons.prems(2)] show ?thesis .
    next
      case False
      obtain c br1 where cp: "skb_copy skb br = (c, br1)" by (cases "skb_copy skb br") auto
      have t1: "trace br1 = trace br"
        using cp by (auto simp add: skb_copy_def alloc_def split: list.splits bool.splits)
      show ?thesis
      proof (cases c)
        case None
        then show ?thesis
          using Cons.prems adj False cp t1 by (auto simp add: rbr_find_node_Some)
      next
        case (Some skb2)
        then have s2: "skb2 = skb\<lparr>cloned := False\<rparr>"
          using cp by (auto simp add: skb_copy_def alloc_def split: list.splits bool.splits)
        from Some obtain br2 where f: "rbr_fwd p skb2 a vid br1 = Some br2"
          and run: "multidest_loop p r skb ing saddr vid free adjs ns sv br2 = Some (ex, br')"
          using Cons.prems adj False cp
          by (auto simp add: rbr_find_node_Some split: option.splits)
        from rbr_fwd_keeps_payload [OF f] s2 Cons.prems(2) obtain e where
          e: "trace br2 = trace br1 @ [e]" "data (event_skb e) = data skb"
          "drop (data skb + 2) (head (event_skb e)) = drop (data skb + 2) (head skb)"
          by auto
        from Cons.IH [OF run Cons.prems(2)] e t1 show ?thesis by auto
      qed
    qed
  qed
qed

lemma rbr_multidest_fwd_payload:
  assumes run: "rbr_multidest_fwd p skb eg ing saddr vid free br = Some (rc, br')"
    and lay: "mac_header skb + 12 \<le> data skb"
  shows "\<exists>evs. trace br' = trace br @ evs \<and>
            (\<forall>e\<in>set evs. data (event_skb e) = data skb \<and>
               drop (data skb + 2) (head (event_skb e)) = drop (data skb + 2) (head skb))"
proof (cases "p = None \<or> br_rbr br = None \<or>
              (\<exists>r. br_rbr br = Some r \<and> (\<not> VALID_NICK eg \<or> rbr_nodes r eg = None))")
  case True
  then show ?thesis
    using run
    by (auto simp add: rbr_multidest_fwd_def multidest_fwd_fail_def kfree_skb_def emit_def
        rbr_find_node_Some split: option.splits if_splits)
next
  case False
  then obtain port r dest where p: "p = Some port" and rbr: "br_rbr br = Some r"
    and d: "VALID_NICK eg" "rbr_nodes r eg = Some dest"
    by auto
  from run rbr p d obtain ex br1 where
    loop: "multidest_loop port r skb ing saddr vid free (adjnicks (rbr_ni dest)) False 0 br = Some (ex, br1)"
    by (auto simp add: rbr_multidest_fwd_def rbr_find_node_Some split: option.splits)
  from multidest_loop_payload [OF loop lay] obtain evs where
    evs: "trace br1 = trace br @ evs"
      "\<forall>e\<in>set evs. data (event_skb e) = data skb \<and>
               drop (data skb + 2) (head (event_skb e)) = drop (data skb + 2) (head skb)"
    by auto
  show ?thesis
  proof (cases ex)
    case Loop_fail
    then show ?thesis
      using run rbr p d loop evs
      by (auto simp add: rbr_multidest_fwd_def rbr_find_node_Some multidest_fwd_fail_def
          kfree_skb_def emit_def)
  next
    case (Loop_done saved n)
    show ?thesis
    proof (cases saved)
      case False
      then show ?thesis
        using run rbr p d loop evs Loop_done
        by (auto simp add: rbr_multidest_fwd_def rbr_find_node_Some kfree_skb_def emit_def)
    next
      case True
      then have f: "rbr_fwd port skb n vid br1 = Some br'"
        using run rbr p d loop Loop_done
        by (auto simp add: rbr_multidest_fwd_def rbr_find_node_Some)
      from rbr_fwd_keeps_payload [OF f lay] evs show ?thesis by auto
    qed
  qed
qed

subsection \<open>Flooding a native frame\<close>


lemma rbr_encaps_events:
  assumes run: "rbr_encaps hops skb ing eg md br = Some (failed, skb', br')"
  shows "tx_dropped br' = tx_dropped br \<and> br_rbr br' = br_rbr br \<and>
         (\<exists>evs. trace br' = trace br @ evs \<and> (\<forall>e\<in>set evs. \<not> is_forward e \<and> \<not> is_delivery e))"
proof -
  from run obtain skb2 res br1 where
    v: "rbr_encaps_vlan skb2 br = Some (res, br1)" and
    rest: "(case res of
        None \<Rightarrow> Some (True, skb2, br1)
      | Some skb3 \<Rightarrow>
          (case skb_cow_head skb3 (sizeof_trill_hdr + ETH_HLEN) br1 of
             (False, skb4, br2) \<Rightarrow> Some (True, skb4, br2)
           | (True, skb4, br2) \<Rightarrow>
               map_option (\<lambda>skb5. (False, skb5, br2))
                 (rbr_encaps_hdr hops skb4 ing eg md))) = Some (failed, skb', br')"
    by (auto simp add: rbr_encaps_def Let_def split: bind_splits)
  note ve = rbr_encaps_vlan_events [OF v]
  show ?thesis
  proof (cases res)
    case None
    with rest ve show ?thesis by auto
  next
    case (Some skb3)
    obtain ok skb4 br2 where cow: "skb_cow_head skb3 (sizeof_trill_hdr + ETH_HLEN) br1 = (ok, skb4, br2)"
      by (cases "skb_cow_head skb3 (sizeof_trill_hdr + ETH_HLEN) br1") auto
    have "trace br2 = trace br1 \<and> tx_dropped br2 = tx_dropped br1 \<and> br_rbr br2 = br_rbr br1"
      using skb_cow_head_ok [of skb3 _ br1 skb4 br2] skb_cow_head_fail [of skb3 _ br1 skb4 br2] cow
      by (cases ok) auto
    moreover have "br' = br2" using rest Some cow by (cases ok) auto
    ultimately show ?thesis using ve by auto
  qed
qed

lemma skb_clone_ok:
  "alloc_fail br = False # rest \<Longrightarrow>
   skb_clone skb br = (Some (skb\<lparr>cloned := True\<rparr>), skb\<lparr>cloned := True\<rparr>, br\<lparr>alloc_fail := rest\<rparr>)"
  by (simp add: skb_clone_def alloc_def)

lemma encaps_drop_eq:
  "encaps_drop (Some p) skb br =
     br\<lparr>tx_dropped := tx_dropped br + 1, trace := trace br @ [Kfree_skb skb]\<rparr>"
  by (simp add: encaps_drop_def kfree_skb_def emit_def)

lemma source_root_eq:
  "(if dtrootcount (rbr_ni self) > 0 then RBR_NI_DTROOTNICK (rbr_ni self) 0 else rbr_treeroot r) =
     chosen_root r self"
  by (simp add: chosen_root_def dtrootcount_def RBR_NI_DTROOTNICK_def)

lemma rbr_encaps_prepare_flood:
  assumes "br_port_get_rcu (dev skb) = Some p" and "br_rbr br = Some r"
    and "VALID_NICK (rbr_nick r)" and "rbr_nodes r (rbr_nick r) = Some self"
  shows "rbr_encaps_prepare hops skb RBRIDGE_NICKNAME_NONE vid br =
     (if \<not> VALID_NICK (chosen_root r self) then Some (encaps_drop (Some p) skb br)
      else (case skb_clone skb br of
          (None, skb1, br1) \<Rightarrow>
            Some (encaps_drop (Some p) skb1 (br1\<lparr>tx_dropped := tx_dropped br1 + 1\<rparr>))
        | (Some skb2, skb1, br1) \<Rightarrow>
            (case rbr_encaps hops skb1 (rbr_nick r) (chosen_root r self) True
                    (br_endstation_deliver skb2 br1) of
               None \<Rightarrow> None
             | Some (True, skb3, br3) \<Rightarrow> Some (encaps_drop (Some p) skb3 br3)
             | Some (False, skb3, br3) \<Rightarrow>
                 map_option snd
                   (rbr_multidest_fwd (Some p) skb3 (chosen_root r self) (rbr_nick r) None vid
                      True br3))))" (is "?lhs = ?rhs")
proof -
  have "rbr_encaps_prepare hops skb RBRIDGE_NICKNAME_NONE vid br =
          rbr_encaps_flood hops p r skb (rbr_nick r) vid br"
    using assms by (simp add: rbr_encaps_prepare_def Let_def)
  also have "\<dots> = ?rhs"
    unfolding rbr_encaps_flood_def rbr_find_node_Some Let_def source_root_eq
    using assms by simp
  finally show ?thesis .
qed

lemma trill_nicks_behind_flags:
  assumes "drop (d + 2) buf = host16_bytes e @ host16_bytes i @ rest"
  shows "th_egressnick_at buf d = Some e \<and> th_ingressnick_at buf d = Some i"
proof -
  have e: "get_bytes buf (d + 2 + 0) 2 = Some (host16_bytes e)"
    using assms by (intro get_bytes_via_drop [where pre = "[]"]) auto
  have i: "get_bytes buf (d + 2 + 2) 2 = Some (host16_bytes i)"
    using assms by (intro get_bytes_via_drop [where pre = "host16_bytes e"]) auto
  have e4: "d + 2 + 2 = d + 4" by simp
  from e i [unfolded e4] show ?thesis
    by (simp add: th_egressnick_at_def th_ingressnick_at_def)
qed

subsection \<open>Hop count on arrival\<close>

lemma rbr_recv_hop0:
  assumes port: "br_port_get_rcu (dev skb) = Some p"
    and rbr: "br_rbr br = Some r"
    and dst: "eth_h_dest skb = Some d" and src: "eth_h_source skb = Some s"
    and fl: "th_flags_at (head skb) (data skb) = Some fl"
    and ing: "th_ingressnick_at (head skb) (data skb) = Some ing"
    and eg: "th_egressnick_at (head skb) (data skb) = Some eg"
    and hop: "trill_get_hopcount fl = 0"
    and notlocal: "trill_get_multidest fl \<or> eg \<noteq> rbr_nick r"
  shows "\<exists>skb'. rbr_recv skb vid br =
           Some (br\<lparr>rx_dropped := rx_dropped br + 1, trace := trace br @ [Kfree_skb skb']\<rparr>)"
proof -
  have "\<exists>skb'. rbr_recv skb vid br = Some (recv_drop (Some p) skb' br)"
  proof (cases "skb_len skb < sizeof_trill_hdr + trill_get_optslen fl + ETH_HLEN")
    case True
    then show ?thesis
      using port dst src fl by (auto simp add: rbr_recv_def pskb_may_pull_def)
  next
    case False
    then have "sizeof_trill_hdr + trill_get_optslen fl + ETH_HLEN \<le> skb_len skb" by simp
    note m = recv_mark_encapsulated_eq [OF this, folded marked_def]
    show ?thesis
      using port dst src fl False ing eg rbr hop notlocal
      by (auto simp add: rbr_recv_def pskb_may_pull_def m Let_def
          unicast_hop0 multidest_hop0)
  qed
  then show ?thesis by (simp add: recv_drop_eq)
qed

lemma rbr_recv_to_local:
  assumes acc: "rx_accepted p r skb s fl eg ing" and rbr: "br_rbr br = Some r"
    and uni: "\<not> trill_get_multidest fl" and loc: "eg = rbr_nick r"
  shows "\<exists>e br'. rbr_recv skb vid br = Some br' \<and> trace br' = trace br @ [e] \<and>
           is_delivery e \<and>
           frame_of (event_skb e) = drop (data skb + sizeof_trill_hdr) (head skb) \<and>
           rx_dropped br' = rx_dropped br \<and> tx_dropped br' = tx_dropped br"
proof -
  have neq: "eg \<noteq> ing" using acc loc by (auto simp add: rx_accepted_def)
  have step: "rbr_recv skb vid br = rbr_decaps (Some p) (marked skb) sizeof_trill_hdr vid br"
    using rbr_recv_accepted [OF acc rbr] uni neq loc by (simp add: rbr_recv_unicast_def)
  have len: "data (marked skb) + sizeof_trill_hdr + ETH_HLEN \<le> length (head (marked skb))"
    using acc by (auto simp add: rx_accepted_def skb_len_def sizeof_trill_hdr_def ETH_HLEN_def)
  from rbr_decaps_delivers [OF len order_refl, of p vid br]
  show ?thesis
    using step by (auto simp add: frame_of_def)
qed

subsection \<open>Encapsulation when no allocation fails\<close>

lemma skb_cow_head_total:
  assumes "True \<notin> set (alloc_fail br)"
  shows "\<exists>skb' br'. skb_cow_head skb n br = (True, skb', br') \<and> True \<notin> set (alloc_fail br')"
proof (cases "n - skb_headroom skb = 0 \<and> \<not> cloned skb")
  case True
  with assms show ?thesis by (simp add: skb_cow_head_def)
next
  case False
  with assms no_fail_tl [OF assms] show ?thesis
    by (auto simp add: skb_cow_head_def Let_def alloc_ok)
qed

lemma vlan_insert_tag_total:
  assumes nofail: "True \<notin> set (alloc_fail br)"
    and len: "data skb + 12 \<le> length (head skb)"
  shows "\<exists>skb' br'. vlan_insert_tag skb proto tci br = Some (Some skb', br') \<and>
           True \<notin> set (alloc_fail br')"
proof -
  from skb_cow_head_total [OF nofail, of skb VLAN_HLEN] obtain skb1 br1 where
    cow: "skb_cow_head skb VLAN_HLEN br = (True, skb1, br1)" and nf: "True \<notin> set (alloc_fail br1)"
    by blast
  note c = skb_cow_head_ok [OF cow]
  let ?o = "data skb1 - 4" and ?h = "head skb1"
  from c have d4: "4 \<le> data skb1" by (simp add: VLAN_HLEN_def)
  have big: "data skb1 + 12 \<le> length ?h" using c len by simp
  have o4: "?o + 4 = data skb1" using d4 by simp
  have macs: "get_bytes ?h (?o + 4) 12 = Some (take 12 (drop (?o + 4) ?h))"
    using big unfolding o4 by (intro get_bytes_Some) simp
  let ?macs = "take 12 (drop (?o + 4) ?h)"
  have ml: "length ?macs = 12" using big unfolding o4 by simp
  from put_bytes_ex [of ?o ?macs ?h] ml big d4 obtain h1 where
    h1: "put_bytes ?h ?o ?macs = Some h1" by auto
  have l1: "length h1 = length ?h" using put_bytes_SomeD [OF h1] by simp
  from put_bytes_ex [of "?o + 12" "be16_bytes proto" h1] l1 big d4 obtain h2 where
    h2: "put_bytes h1 (?o + 12) (be16_bytes proto) = Some h2" by auto
  have l2: "length h2 = length ?h" using put_bytes_SomeD [OF h2] l1 by simp
  from put_bytes_ex [of "?o + 12 + 2" "be16_bytes tci" h2] l2 big d4 obtain h3 where
    h3: "put_bytes h2 (?o + 12 + 2) (be16_bytes tci) = Some h3" by auto
  show ?thesis
    using cow nf d4 macs h1 h2 h3
    by (simp add: vlan_insert_tag_def skb_push_def VLAN_HLEN_def ETH_ALEN_def)
qed

lemma rbr_encaps_vlan_total:
  assumes nofail: "True \<notin> set (alloc_fail br)"
    and len: "data skb + 12 \<le> length (head skb)"
  shows "\<exists>skb' br'. rbr_encaps_vlan skb br = Some (Some skb', br') \<and>
           True \<notin> set (alloc_fail br')"
proof (cases "br_vlan_get_tag skb")
  case None
  with nofail show ?thesis by (simp add: rbr_encaps_vlan_def)
next
  case (Some tci)
  from vlan_insert_tag_total [OF nofail len, of "vlan_proto skb" tci] Some
  show ?thesis by (auto simp add: rbr_encaps_vlan_def)
qed

lemma rbr_encaps_total:
  assumes room: "ETH_HLEN \<le> data skb" and len: "data skb \<le> length (head skb)"
    and nofail: "True \<notin> set (alloc_fail br)"
  shows "\<exists>skb' br'. rbr_encaps hops skb ing eg md br = Some (False, skb', br') \<and>
           True \<notin> set (alloc_fail br')"
proof -
  let ?skb1 = "skb\<lparr>data := data skb - ETH_HLEN\<rparr>"
  let ?skb2 = "if \<not> encapsulation ?skb1
                 then (skb_reset_inner_headers ?skb1)\<lparr>encapsulation := True\<rparr> else ?skb1"
  have s2: "head ?skb2 = head skb" "data ?skb2 = data skb - ETH_HLEN"
    by (simp_all add: skb_reset_inner_headers_def)
  have l12: "data ?skb2 + 12 \<le> length (head ?skb2)"
    unfolding s2 using room len by (simp add: ETH_HLEN_def)
  from rbr_encaps_vlan_total [OF nofail l12] obtain skb3 br1 where
    v: "rbr_encaps_vlan ?skb2 br = Some (Some skb3, br1)" and nf1: "True \<notin> set (alloc_fail br1)"
    by blast
  have l2: "data ?skb2 \<le> length (head ?skb2)" using l12 by simp
  note a = rbr_encaps_vlan_ok [OF v l2]
  from skb_cow_head_total [OF nf1, of skb3 "sizeof_trill_hdr + ETH_HLEN"] obtain skb4 br2 where
    cow: "skb_cow_head skb3 (sizeof_trill_hdr + ETH_HLEN) br1 = (True, skb4, br2)"
    and nf2: "True \<notin> set (alloc_fail br2)" by blast
  note c = skb_cow_head_ok [OF cow]
  have r4: "sizeof_trill_hdr + ETH_HLEN \<le> data skb4" using c by simp
  have l4: "data skb4 \<le> length (head skb4)" using c a by auto
  from rbr_encaps_hdr_ok [OF r4 l4, of hops ing eg md] obtain skb5 where
    "rbr_encaps_hdr hops skb4 ing eg md = Some skb5" by blast
  with v cow nf2 room show ?thesis
    by (simp add: rbr_encaps_def skb_push_def Let_def)
qed

lemma fwd_copies_forwards:
  assumes "br_rbr br = Some r" and "True \<notin> set (alloc_fail br)"
    and "\<forall>n\<in>set ns. VALID_NICK n \<and> rbr_nodes r n \<noteq> None"
    and "th_flags_at (head skb) (data skb) = Some fl"
    and "mac_header skb + 12 \<le> data skb"
  shows "\<exists>br' evs. fwd_copies p skb vid ns br = Some br' \<and> trace br' = trace br @ evs \<and>
           (\<forall>e\<in>set evs. is_forward e) \<and>
           map (\<lambda>e. eth_h_dest (event_skb e)) evs =
             map (\<lambda>n. map_option (\<lambda>a. adjsnpa (rbr_ni a)) (rbr_nodes r n)) ns \<and>
           br_rbr br' = Some r \<and> True \<notin> set (alloc_fail br') \<and>
           tx_dropped br' = tx_dropped br \<and> rx_dropped br' = rx_dropped br"
  using assms
proof (induction ns arbitrary: br)
  case Nil
  then show ?case by simp
next
  case (Cons n ns)
  let ?skb2 = "skb\<lparr>cloned := False\<rparr>" and ?br1 = "br\<lparr>alloc_fail := tl (alloc_fail br)\<rparr>"
  from Cons.prems obtain a where a: "rbr_nodes r n = Some a" and v: "VALID_NICK n" by auto
  have r1: "br_rbr ?br1 = Some r" using Cons.prems by simp
  have fl2: "th_flags_at (head ?skb2) (data ?skb2) = Some fl" using Cons.prems by simp
  have lay2: "mac_header ?skb2 + 12 \<le> data ?skb2" using Cons.prems by simp
  from rbr_fwd_forwards [OF r1 v a fl2 lay2, of p vid] obtain e br2 where
    f: "rbr_fwd p ?skb2 n vid ?br1 = Some br2" "trace br2 = trace ?br1 @ [e]"
       "tx_dropped br2 = tx_dropped ?br1" "is_forward e"
       "eth_h_dest (event_skb e) = Some (adjsnpa (rbr_ni a))" by blast
  note fr = rbr_fwd_frame [OF f(1)]
  have r2: "br_rbr br2 = Some r" using fr r1 by simp
  have nf2: "True \<notin> set (alloc_fail br2)" using fr no_fail_tl [OF Cons.prems(2)] by simp
  have sv: "\<forall>n\<in>set ns. VALID_NICK n \<and> rbr_nodes r n \<noteq> None" using Cons.prems by simp
  from Cons.IH [OF r2 nf2 sv Cons.prems(4) Cons.prems(5)] obtain br' evs where
    ih: "fwd_copies p skb vid ns br2 = Some br'" "trace br' = trace br2 @ evs"
        "\<forall>e\<in>set evs. is_forward e"
        "map (\<lambda>e. eth_h_dest (event_skb e)) evs =
             map (\<lambda>n. map_option (\<lambda>a. adjsnpa (rbr_ni a)) (rbr_nodes r n)) ns"
        "br_rbr br' = Some r" "True \<notin> set (alloc_fail br')"
        "tx_dropped br' = tx_dropped br2" "rx_dropped br' = rx_dropped br2" by blast
  have run: "fwd_copies p skb vid (n # ns) br = Some br'"
    using skb_copy_ok [OF Cons.prems(2), of skb] f(1) ih(1) by simp
  have tr: "trace br' = trace br @ (e # evs)" using ih(2) f(2) by simp
  show ?case
    by (rule exI [of _ br'], rule exI [of _ "e # evs"])
       (use run tr ih f a fr in simp)
qed

subsection \<open>The flood path of the Encapsulator\<close>

lemma rbr_multidest_fwd_flood:
  assumes rbr: "br_rbr br = Some r" and eg: "VALID_NICK eg" and dest: "rbr_nodes r eg = Some dest"
    and nofail: "True \<notin> set (alloc_fail br)"
    and fl: "th_flags_at (head skb) (data skb) = Some fl"
    and lay: "mac_header skb + 12 \<le> data skb"
  shows "\<exists>br' evs. rbr_multidest_fwd (Some p) skb eg ing None vid True br = Some (0, br') \<and>
           trace br' = trace br @ evs \<and> tx_dropped br' = tx_dropped br \<and>
           rx_dropped br' = rx_dropped br \<and>
           (case survivors r ing None (adjnicks (rbr_ni dest)) of
              [] \<Rightarrow> evs = [Kfree_skb skb]
            | n # ns \<Rightarrow>
                (\<forall>e\<in>set evs. is_forward e) \<and>
                map (\<lambda>e. eth_h_dest (event_skb e)) evs =
                  map (\<lambda>n. map_option (\<lambda>a. adjsnpa (rbr_ni a)) (rbr_nodes r n)) (ns @ [n]))"
proof -
  let ?sv = "survivors r ing None (adjnicks (rbr_ni dest))"
  note loop = multidest_loop_first [OF nofail, of p r skb ing None vid "adjnicks (rbr_ni dest)" 0]
  show ?thesis
  proof (cases ?sv)
    case Nil
    with loop rbr eg dest show ?thesis
      by (simp add: rbr_multidest_fwd_def rbr_find_node_Some kfree_skb_def emit_def)
  next
    case (Cons n ns)
    have "\<forall>a\<in>set ?sv. survives r ing None a" by (simp add: survivors_def)
    then have all: "\<forall>a\<in>set (n # ns). VALID_NICK a \<and> rbr_nodes r a \<noteq> None"
      unfolding Cons by (auto simp add: survives_iff)
    then have rest: "\<forall>a\<in>set ns. VALID_NICK a \<and> rbr_nodes r a \<noteq> None" by simp
    from all obtain a where a: "rbr_nodes r n = Some a" and v: "VALID_NICK n" by auto
    from fwd_copies_forwards [OF rbr nofail rest fl lay, of p vid] obtain br1 evs where
      c: "fwd_copies p skb vid ns br = Some br1" "trace br1 = trace br @ evs"
         "\<forall>e\<in>set evs. is_forward e"
         "map (\<lambda>e. eth_h_dest (event_skb e)) evs =
             map (\<lambda>n. map_option (\<lambda>a. adjsnpa (rbr_ni a)) (rbr_nodes r n)) ns"
         "br_rbr br1 = Some r" "tx_dropped br1 = tx_dropped br" "rx_dropped br1 = rx_dropped br"
      by blast
    from rbr_fwd_forwards [OF c(5) v a fl lay, of p vid] obtain e br' where
      f: "rbr_fwd p skb n vid br1 = Some br'" "trace br' = trace br1 @ [e]"
         "tx_dropped br' = tx_dropped br1" "is_forward e"
         "eth_h_dest (event_skb e) = Some (adjsnpa (rbr_ni a))" by blast
    note fr = rbr_fwd_frame [OF f(1)]
    have run: "rbr_multidest_fwd (Some p) skb eg ing None vid True br = Some (0, br')"
      using loop rbr eg dest Cons c(1) f(1)
      by (simp add: rbr_multidest_fwd_def rbr_find_node_Some)
    have tr: "trace br' = trace br @ (evs @ [e])" using c(2) f(2) by simp
    show ?thesis
      by (rule exI [of _ br'], rule exI [of _ "evs @ [e]"])
         (use run tr c f a fr Cons in simp)
  qed
qed

lemma skb_clone_nofail:
  "True \<notin> set (alloc_fail br) \<Longrightarrow>
   skb_clone skb br =
     (Some (skb\<lparr>cloned := True\<rparr>), skb\<lparr>cloned := True\<rparr>, br\<lparr>alloc_fail := tl (alloc_fail br)\<rparr>)"
  by (simp add: skb_clone_def alloc_ok)

lemma flood_hands_to_replicator:
  assumes port: "br_port_get_rcu (dev skb) = Some p" and rbr: "br_rbr br = Some r"
    and local: "VALID_NICK (rbr_nick r)"
    and self: "rbr_nodes r (rbr_nick r) = Some self"
    and root: "VALID_NICK (chosen_root r self)"
    and room: "ETH_HLEN \<le> data skb" and len: "data skb \<le> length (head skb)"
    and nofail: "True \<notin> set (alloc_fail br)"
  shows "\<exists>skb3 br3.
           th_flags_at (head skb3) (data skb3) = Some (mk_flags True hops) \<and>
           th_egressnick_at (head skb3) (data skb3) = Some (chosen_root r self) \<and>
           th_ingressnick_at (head skb3) (data skb3) = Some (rbr_nick r) \<and>
           mac_header skb3 + ETH_HLEN = data skb3 \<and>
           trace br3 = trace br @ [Br_endstation_deliver (skb\<lparr>cloned := True\<rparr>)] \<and>
           tx_dropped br3 = tx_dropped br \<and> rx_dropped br3 = rx_dropped br \<and>
           br_rbr br3 = Some r \<and> True \<notin> set (alloc_fail br3) \<and>
           rbr_encaps_prepare hops skb RBRIDGE_NICKNAME_NONE vid br =
             map_option snd
               (rbr_multidest_fwd (Some p) skb3 (chosen_root r self) (rbr_nick r) None vid True br3)"
proof -
  let ?c = "skb\<lparr>cloned := True\<rparr>" and ?br1 = "br\<lparr>alloc_fail := tl (alloc_fail br)\<rparr>"
  let ?br2 = "br_endstation_deliver ?c ?br1"
  have nf2: "True \<notin> set (alloc_fail ?br2)"
    using no_fail_tl [OF nofail] by (simp add: br_endstation_deliver_def emit_def)
  have room1: "ETH_HLEN \<le> data ?c" and len1: "data ?c \<le> length (head ?c)"
    using room len by simp_all
  from rbr_encaps_total [OF room1 len1 nf2, of hops "rbr_nick r" "chosen_root r self" True]
  obtain skb3 br3 where
    enc: "rbr_encaps hops ?c (rbr_nick r) (chosen_root r self) True ?br2 = Some (False, skb3, br3)"
    and nf3: "True \<notin> set (alloc_fail br3)" by blast
  note ok = rbr_encaps_ok [OF enc len1]
  from ok obtain F where pl: "drop (data skb3) (head skb3) =
      be16_bytes (mk_flags True hops) @ host16_bytes (chosen_root r self) @
      host16_bytes (rbr_nick r) @ F" by auto
  note fields = trill_hdr_fields [OF pl]
  have t3: "trace br3 = trace br @ [Br_endstation_deliver ?c]"
    using ok by (simp add: br_endstation_deliver_def emit_def)
  have k3: "tx_dropped br3 = tx_dropped br" "rx_dropped br3 = rx_dropped br" "br_rbr br3 = Some r"
    using ok rbr by (simp_all add: br_endstation_deliver_def emit_def)
  have run: "rbr_encaps_prepare hops skb RBRIDGE_NICKNAME_NONE vid br =
             map_option snd
               (rbr_multidest_fwd (Some p) skb3 (chosen_root r self) (rbr_nick r) None vid True br3)"
    using root skb_clone_nofail [OF nofail, of skb] enc
    by (simp add: rbr_encaps_prepare_flood [OF port rbr local self])
  show ?thesis
    by (rule exI [of _ skb3], rule exI [of _ br3]) (use fields ok t3 k3 nf3 run in simp)
qed

lemma flood_copies_carry_root:
  assumes port: "br_port_get_rcu (dev skb) = Some p" and rbr: "br_rbr br = Some r"
    and local: "VALID_NICK (rbr_nick r)"
    and self: "rbr_nodes r (rbr_nick r) = Some self"
    and root: "VALID_NICK (chosen_root r self)"
    and len: "data skb \<le> length (head skb)"
    and run: "rbr_encaps_prepare hops skb RBRIDGE_NICKNAME_NONE vid br = Some br'"
  shows "\<exists>evs. trace br' = trace br @ evs \<and>
           (\<forall>e\<in>set evs. is_forward e \<longrightarrow>
              th_egressnick_at (head (event_skb e)) (data (event_skb e)) =
                Some (chosen_root r self) \<and>
              th_ingressnick_at (head (event_skb e)) (data (event_skb e)) = Some (rbr_nick r))"
proof -
  let ?root = "chosen_root r self" and ?local = "rbr_nick r"
  let ?ok = "\<lambda>e. is_forward e \<longrightarrow>
                  th_egressnick_at (head (event_skb e)) (data (event_skb e)) = Some ?root \<and>
                  th_ingressnick_at (head (event_skb e)) (data (event_skb e)) = Some ?local"
  obtain c skb1 br1 where cl: "skb_clone skb br = (c, skb1, br1)"
    by (cases "skb_clone skb br") auto
  note fr = skb_clone_frame [OF cl]
  note fl = run [unfolded rbr_encaps_prepare_flood [OF port rbr local self]]
  show ?thesis
  proof (cases c)
    case None
    with fl root cl fr show ?thesis
      by (auto simp add: encaps_drop_eq)
  next
    case (Some skb2)
    then have s1: "head skb1 = head skb" "data skb1 = data skb"
      using cl by (auto simp add: skb_clone_def alloc_def split: list.splits bool.splits)
    let ?br2 = "br_endstation_deliver skb2 br1"
    from fl root cl Some obtain failed skb3 br3 where
      enc: "rbr_encaps hops skb1 ?local ?root True ?br2 = Some (failed, skb3, br3)" and
      fin: "(if failed then Some (encaps_drop (Some p) skb3 br3)
             else map_option snd (rbr_multidest_fwd (Some p) skb3 ?root ?local None vid True br3))
            = Some br'"
      by (auto split: option.splits bool.splits)
    have t2: "trace ?br2 = trace br @ [Br_endstation_deliver skb2]"
      using fr by (simp add: br_endstation_deliver_def emit_def)
    from rbr_encaps_events [OF enc] obtain evs1 where
      e1: "trace br3 = trace ?br2 @ evs1" "\<forall>e\<in>set evs1. \<not> is_forward e" by auto
    show ?thesis
    proof (cases failed)
      case True
      with fin e1 t2 show ?thesis by (auto simp add: encaps_drop_eq)
    next
      case False
      with fin obtain rc where
        m: "rbr_multidest_fwd (Some p) skb3 ?root ?local None vid True br3 = Some (rc, br')"
        by auto
      have l1: "data skb1 \<le> length (head skb1)" using len s1 by simp
      from enc False
      have enc': "rbr_encaps hops skb1 ?local ?root True ?br2 = Some (False, skb3, br3)"
        by simp
      note ok = rbr_encaps_ok [OF enc' l1]
      then have lay: "mac_header skb3 + 12 \<le> data skb3" by (auto simp add: ETH_HLEN_def)
      from ok obtain F where pl: "drop (data skb3) (head skb3) =
          be16_bytes (mk_flags True hops) @ host16_bytes ?root @ host16_bytes ?local @ F"
        by auto
      have "drop (data skb3 + 2) (head skb3) = drop 2 (drop (data skb3) (head skb3))"
        by (simp add: add.commute)
      with pl have pl2: "drop (data skb3 + 2) (head skb3) =
          host16_bytes ?root @ host16_bytes ?local @ F" by simp
      from rbr_multidest_fwd_payload [OF m lay] obtain evs where
        evs: "trace br' = trace br3 @ evs"
          "\<forall>e\<in>set evs. data (event_skb e) = data skb3 \<and>
             drop (data skb3 + 2) (head (event_skb e)) = drop (data skb3 + 2) (head skb3)"
        by auto
      have "\<forall>e\<in>set evs. ?ok e"
      proof
        fix e assume "e \<in> set evs"
        with evs(2) pl2 have "drop (data (event_skb e) + 2) (head (event_skb e)) =
            host16_bytes ?root @ host16_bytes ?local @ F" by simp
        from trill_nicks_behind_flags [OF this] show "?ok e" by simp
      qed
      with evs(1) e1 t2 show ?thesis by auto
    qed
  qed
qed

lemma flood_forwards:
  assumes port: "br_port_get_rcu (dev skb) = Some p" and rbr: "br_rbr br = Some r"
    and local: "VALID_NICK (rbr_nick r)"
    and self: "rbr_nodes r (rbr_nick r) = Some self"
    and root: "VALID_NICK (chosen_root r self)"
    and room: "ETH_HLEN \<le> data skb" and len: "data skb \<le> length (head skb)"
    and nofail: "True \<notin> set (alloc_fail br)"
    and dest: "rbr_nodes r (chosen_root r self) = Some dest"
  shows "\<exists>br' evs. rbr_encaps_prepare hops skb RBRIDGE_NICKNAME_NONE vid br = Some br' \<and>
           trace br' = trace br @ Br_endstation_deliver (skb\<lparr>cloned := True\<rparr>) # evs \<and>
           tx_dropped br' = tx_dropped br \<and>
           (case survivors r (rbr_nick r) None (adjnicks (rbr_ni dest)) of
              [] \<Rightarrow> \<exists>skb3. evs = [Kfree_skb skb3]
            | n # ns \<Rightarrow>
                map (\<lambda>e. eth_h_dest (event_skb e)) evs =
                  map (\<lambda>n. map_option (\<lambda>a. adjsnpa (rbr_ni a)) (rbr_nodes r n)) (ns @ [n]) \<and>
                (\<forall>e\<in>set evs. is_forward e \<and>
                   th_egressnick_at (head (event_skb e)) (data (event_skb e)) =
                     Some (chosen_root r self) \<and>
                   th_ingressnick_at (head (event_skb e)) (data (event_skb e)) =
                     Some (rbr_nick r)))"
proof -
  let ?sv = "survivors r (rbr_nick r) None (adjnicks (rbr_ni dest))"
  let ?c = "skb\<lparr>cloned := True\<rparr>"
  from flood_hands_to_replicator [OF port rbr local self root room len nofail, of hops vid]
  obtain skb3 br3 where
    h: "th_flags_at (head skb3) (data skb3) = Some (mk_flags True hops)"
       "mac_header skb3 + ETH_HLEN = data skb3"
       "trace br3 = trace br @ [Br_endstation_deliver ?c]"
       "tx_dropped br3 = tx_dropped br" "br_rbr br3 = Some r" "True \<notin> set (alloc_fail br3)"
       "rbr_encaps_prepare hops skb RBRIDGE_NICKNAME_NONE vid br =
          map_option snd
            (rbr_multidest_fwd (Some p) skb3 (chosen_root r self) (rbr_nick r) None vid True br3)"
    by blast
  have lay: "mac_header skb3 + 12 \<le> data skb3" using h(2) by (simp add: ETH_HLEN_def)
  from rbr_multidest_fwd_flood [OF h(5) root dest h(6) h(1) lay, of p "rbr_nick r" vid]
  obtain br' evs where
    m: "rbr_multidest_fwd (Some p) skb3 (chosen_root r self) (rbr_nick r) None vid True br3 =
          Some (0, br')"
       "trace br' = trace br3 @ evs" "tx_dropped br' = tx_dropped br3"
       "case ?sv of
              [] \<Rightarrow> evs = [Kfree_skb skb3]
            | n # ns \<Rightarrow>
                (\<forall>e\<in>set evs. is_forward e) \<and>
                map (\<lambda>e. eth_h_dest (event_skb e)) evs =
                  map (\<lambda>n. map_option (\<lambda>a. adjsnpa (rbr_ni a)) (rbr_nodes r n)) (ns @ [n])"
    by blast
  have run: "rbr_encaps_prepare hops skb RBRIDGE_NICKNAME_NONE vid br = Some br'"
    using h(7) m(1) by simp
  have tr: "trace br' = trace br @ Br_endstation_deliver ?c # evs" using m(2) h(3) by simp
  from flood_copies_carry_root [OF port rbr local self root len run] tr
  have nicks: "\<forall>e\<in>set evs. is_forward e \<longrightarrow>
      th_egressnick_at (head (event_skb e)) (data (event_skb e)) = Some (chosen_root r self) \<and>
      th_ingressnick_at (head (event_skb e)) (data (event_skb e)) = Some (rbr_nick r)"
    by auto
  show ?thesis
    by (rule exI [of _ br'], rule exI [of _ evs])
       (use run tr m(3,4) h(4) nicks in \<open>auto split: list.splits\<close>)
qed
section \<open>The receive path\<close>

text \<open>
  C1. A TRILL frame received on a port whose outer destination MAC is not the port's own
  MAC is dropped: the receive path frees the buffer and counts it in \<open>rx_dropped\<close>, and
  nothing else happens (no forwarding, no replication, no decapsulation, no learning).
\<close>

theorem C1_outer_destination_mismatch_drops:
  assumes "br_port_get_rcu (dev skb) = Some p"
    and "eth_h_dest skb = Some d"
    and "d \<noteq> port_dev_addr p"
  shows "rbr_recv skb vid br =
           Some (br\<lparr>rx_dropped := rx_dropped br + 1, trace := trace br @ [Kfree_skb skb]\<rparr>)"
  using assms by (auto simp add: rbr_recv_def recv_drop_eq)

theorem C1_witness:
  "br_port_get_rcu (dev (rx_frame port_B MC MA (mk_flags False 5) 3 1)) = Some port_B \<and>
   eth_h_dest (rx_frame port_B MC MA (mk_flags False 5) 3 1) = Some MC \<and>
   MC \<noteq> port_dev_addr port_B \<and>
   rbr_recv (rx_frame port_B MC MA (mk_flags False 5) 3 1) 10 bridge_B =
     Some (bridge_B\<lparr>rx_dropped := rx_dropped bridge_B + 1,
             trace := trace bridge_B @ [Kfree_skb (rx_frame port_B MC MA (mk_flags False 5) 3 1)]\<rparr>)"
proof -
  let ?w = "rx_frame port_B MC MA (mk_flags False 5) 3 1"
  have h1: "br_port_get_rcu (dev ?w) = Some port_B" by code_simp
  have h2: "eth_h_dest ?w = Some MC" by code_simp
  have h3: "MC \<noteq> port_dev_addr port_B" by code_simp
  from C1_outer_destination_mismatch_drops [OF h1 h2 h3, of 10 bridge_B] h1 h2 h3
  show ?thesis by blast
qed

text \<open>
  C2. A received TRILL frame, unicast or multi-destination, whose ingress nickname is
  the bridge's local nickname is dropped: the buffer is freed and counted in
  \<open>rx_dropped\<close>, and it is neither forwarded, replicated nor decapsulated.
\<close>

theorem C2_ingress_is_local_nick_drops:
  assumes port: "br_port_get_rcu (dev skb) = Some p"
    and rbr: "br_rbr br = Some r"
    and dst: "eth_h_dest skb = Some d" and src: "eth_h_source skb = Some s"
    and ing: "th_ingressnick_at (head skb) (data skb) = Some (rbr_nick r)"
  shows "\<exists>skb'. rbr_recv skb vid br =
           Some (br\<lparr>rx_dropped := rx_dropped br + 1, trace := trace br @ [Kfree_skb skb']\<rparr>)"
proof -
  from ing have len: "data skb + 6 \<le> length (head skb)" by (rule th_ingress_SomeD)
  then obtain fl where fl: "th_flags_at (head skb) (data skb) = Some fl"
    using th_flags_readable [of "data skb" "head skb"] by auto
  from len obtain eg where eg: "th_egressnick_at (head skb) (data skb) = Some eg"
    using th_egress_readable [of "data skb" "head skb"] by auto
  show ?thesis
  proof (cases "skb_len skb < sizeof_trill_hdr + trill_get_optslen fl + ETH_HLEN")
    case True
    then show ?thesis
      using port dst src fl by (auto simp add: rbr_recv_def recv_drop_eq pskb_may_pull_def)
  next
    case False
    then have "sizeof_trill_hdr + trill_get_optslen fl + ETH_HLEN \<le> skb_len skb" by simp
    note m = recv_mark_encapsulated_eq [OF this, folded marked_def]
    show ?thesis
      using port dst src fl False ing eg rbr
      by (auto simp add: rbr_recv_def recv_drop_eq pskb_may_pull_def m Let_def)
  qed
qed

theorem C2_witness:
  "br_port_get_rcu (dev (rx_frame port_B MB MA (mk_flags True 5) 1 2)) = Some port_B \<and>
   br_rbr bridge_B = Some rbr_B \<and>
   eth_h_dest (rx_frame port_B MB MA (mk_flags True 5) 1 2) = Some MB \<and>
   eth_h_source (rx_frame port_B MB MA (mk_flags True 5) 1 2) = Some MA \<and>
   th_ingressnick_at (head (rx_frame port_B MB MA (mk_flags True 5) 1 2))
     (data (rx_frame port_B MB MA (mk_flags True 5) 1 2)) = Some (rbr_nick rbr_B) \<and>
   (\<exists>skb'. rbr_recv (rx_frame port_B MB MA (mk_flags True 5) 1 2) 10 bridge_B =
      Some (bridge_B\<lparr>rx_dropped := rx_dropped bridge_B + 1,
              trace := trace bridge_B @ [Kfree_skb skb']\<rparr>))"
proof -
  let ?w = "rx_frame port_B MB MA (mk_flags True 5) 1 2"
  have h1: "br_port_get_rcu (dev ?w) = Some port_B" by code_simp
  have h2: "br_rbr bridge_B = Some rbr_B" by (simp add: bridge_B_def ex_bridge_def)
  have h3: "eth_h_dest ?w = Some MB" by code_simp
  have h4: "eth_h_source ?w = Some MA" by code_simp
  have h5: "th_ingressnick_at (head ?w) (data ?w) = Some (rbr_nick rbr_B)" by code_simp
  from C2_ingress_is_local_nick_drops [OF h1 h2 h3 h4 h5, of 10] h1 h2 h3 h4 h5
  show ?thesis by blast
qed

text \<open>
  C3. As stated the claim fails: a unicast frame with hop count 0 whose egress nickname
  is the local nickname is decapsulated and delivered (line 630 comes before the hop
  count test of line 632).
\<close>

theorem C3_counterexample:
  "rx_accepted port_B rbr_B (rx_frame port_B MB MA (mk_flags False 0) 2 1)
     MA (mk_flags False 0) 2 1 \<and>
   trill_get_hopcount (mk_flags False 0) = 0 \<and>
   rbr_nick rbr_B = 2 \<and>
   map_option trace (rbr_recv (rx_frame port_B MB MA (mk_flags False 0) 2 1) 10 bridge_B) =
     Some [Br_endstation_deliver
        ((rx_frame port_B MB MA (mk_flags False 0) 2 1)
           \<lparr>data := 34, mac_header := 20, network_header := 34, inner_network_header := 14,
            inner_transport_header := 14, encapsulation := False, protocol := 0x0800,
            dev := Bridge_dev\<rparr>)] \<and>
   map_option rx_dropped (rbr_recv (rx_frame port_B MB MA (mk_flags False 0) 2 1) 10 bridge_B) =
     Some 0"
  by code_simp

text \<open>
  C3, amended. A TRILL frame arriving with hop count 0 is dropped when it is a
  multi-destination frame, or a unicast frame whose egress nickname is not the local
  nickname: the buffer is freed and counted in \<open>rx_dropped\<close> and nothing else happens.
  A unicast frame whose egress nickname is the local nickname, and which passes the
  checks of lines 572--612, is decapsulated whatever its hop count: the inner frame is
  delivered locally and no drop is counted.
\<close>

theorem C3_hop_count_zero_dropped_unless_unicast_to_local:
  assumes rbr: "br_rbr br = Some r"
  shows "(br_port_get_rcu (dev skb) = Some p \<and>
          eth_h_dest skb = Some d \<and> eth_h_source skb = Some s \<and>
          th_flags_at (head skb) (data skb) = Some fl \<and>
          th_ingressnick_at (head skb) (data skb) = Some ing \<and>
          th_egressnick_at (head skb) (data skb) = Some eg \<and>
          trill_get_hopcount fl = 0 \<and>
          (trill_get_multidest fl \<or> eg \<noteq> rbr_nick r) \<longrightarrow>
            (\<exists>skb'. rbr_recv skb vid br =
               Some (br\<lparr>rx_dropped := rx_dropped br + 1,
                       trace := trace br @ [Kfree_skb skb']\<rparr>))) \<and>
         (rx_accepted p r skb s fl eg ing \<and> \<not> trill_get_multidest fl \<and> eg = rbr_nick r \<longrightarrow>
            (\<exists>e br'. rbr_recv skb vid br = Some br' \<and> trace br' = trace br @ [e] \<and>
               is_delivery e \<and>
               frame_of (event_skb e) = drop (data skb + sizeof_trill_hdr) (head skb) \<and>
               rx_dropped br' = rx_dropped br \<and> tx_dropped br' = tx_dropped br))"
proof (intro conjI impI)
  assume "br_port_get_rcu (dev skb) = Some p \<and>
          eth_h_dest skb = Some d \<and> eth_h_source skb = Some s \<and>
          th_flags_at (head skb) (data skb) = Some fl \<and>
          th_ingressnick_at (head skb) (data skb) = Some ing \<and>
          th_egressnick_at (head skb) (data skb) = Some eg \<and>
          trill_get_hopcount fl = 0 \<and>
          (trill_get_multidest fl \<or> eg \<noteq> rbr_nick r)"
  then show "\<exists>skb'. rbr_recv skb vid br =
               Some (br\<lparr>rx_dropped := rx_dropped br + 1,
                       trace := trace br @ [Kfree_skb skb']\<rparr>)"
    using rbr_recv_hop0 [of skb p br r d s fl ing eg vid] rbr by blast
next
  assume "rx_accepted p r skb s fl eg ing \<and> \<not> trill_get_multidest fl \<and> eg = rbr_nick r"
  then show "\<exists>e br'. rbr_recv skb vid br = Some br' \<and> trace br' = trace br @ [e] \<and>
               is_delivery e \<and>
               frame_of (event_skb e) = drop (data skb + sizeof_trill_hdr) (head skb) \<and>
               rx_dropped br' = rx_dropped br \<and> tx_dropped br' = tx_dropped br"
    using rbr_recv_to_local [of p r skb s fl eg ing br vid] rbr by blast
qed

theorem C3_witness:
  "br_rbr bridge_B = Some rbr_B \<and>
   br_port_get_rcu (dev (rx_frame port_B MB MA (mk_flags True 0) 1 3)) = Some port_B \<and>
   eth_h_dest (rx_frame port_B MB MA (mk_flags True 0) 1 3) = Some MB \<and>
   eth_h_source (rx_frame port_B MB MA (mk_flags True 0) 1 3) = Some MA \<and>
   th_flags_at (head (rx_frame port_B MB MA (mk_flags True 0) 1 3))
     (data (rx_frame port_B MB MA (mk_flags True 0) 1 3)) = Some (mk_flags True 0) \<and>
   th_ingressnick_at (head (rx_frame port_B MB MA (mk_flags True 0) 1 3))
     (data (rx_frame port_B MB MA (mk_flags True 0) 1 3)) = Some 3 \<and>
   th_egressnick_at (head (rx_frame port_B MB MA (mk_flags True 0) 1 3))
     (data (rx_frame port_B MB MA (mk_flags True 0) 1 3)) = Some 1 \<and>
   trill_get_hopcount (mk_flags True 0) = 0 \<and>
   trill_get_multidest (mk_flags True 0) \<and>
   (\<exists>skb'. rbr_recv (rx_frame port_B MB MA (mk_flags True 0) 1 3) 10 bridge_B =
      Some (bridge_B\<lparr>rx_dropped := rx_dropped bridge_B + 1,
              trace := trace bridge_B @ [Kfree_skb skb']\<rparr>)) \<and>
   rx_accepted port_B rbr_B (rx_frame port_B MB MA (mk_flags False 0) 2 1)
     MA (mk_flags False 0) 2 1 \<and>
   \<not> trill_get_multidest (mk_flags False 0) \<and>
   trill_get_hopcount (mk_flags False 0) = 0 \<and>
   rbr_nick rbr_B = 2 \<and>
   (\<exists>e br'. rbr_recv (rx_frame port_B MB MA (mk_flags False 0) 2 1) 10 bridge_B = Some br' \<and>
      trace br' = trace bridge_B @ [e] \<and> is_delivery e \<and>
      frame_of (event_skb e) = ex_inner \<and>
      rx_dropped br' = rx_dropped bridge_B \<and> tx_dropped br' = tx_dropped bridge_B)"
proof -
  let ?w = "rx_frame port_B MB MA (mk_flags True 0) 1 3"
  let ?u = "rx_frame port_B MB MA (mk_flags False 0) 2 1"
  have h1: "br_port_get_rcu (dev ?w) = Some port_B" by code_simp
  have h2: "br_rbr bridge_B = Some rbr_B" by (simp add: bridge_B_def ex_bridge_def)
  have h3: "eth_h_dest ?w = Some MB" by code_simp
  have h4: "eth_h_source ?w = Some MA" by code_simp
  have h5: "th_flags_at (head ?w) (data ?w) = Some (mk_flags True 0)" by code_simp
  have h6: "th_ingressnick_at (head ?w) (data ?w) = Some 3" by code_simp
  have h7: "th_egressnick_at (head ?w) (data ?w) = Some 1" by code_simp
  have h8: "trill_get_hopcount (mk_flags True 0) = 0" by code_simp
  have h9: "trill_get_multidest (mk_flags True 0)" by code_simp
  have g1: "rx_accepted port_B rbr_B ?u MA (mk_flags False 0) 2 1" by code_simp
  have g2: "\<not> trill_get_multidest (mk_flags False 0)" by code_simp
  have g3: "trill_get_hopcount (mk_flags False 0) = 0" by code_simp
  have g4: "rbr_nick rbr_B = 2" by code_simp
  have g5: "drop (data ?u + sizeof_trill_hdr) (head ?u) = ex_inner" by code_simp
  note c3 = C3_hop_count_zero_dropped_unless_unicast_to_local [OF h2]
  have a: "\<exists>skb'. rbr_recv ?w 10 bridge_B =
      Some (bridge_B\<lparr>rx_dropped := rx_dropped bridge_B + 1,
              trace := trace bridge_B @ [Kfree_skb skb']\<rparr>)"
    using c3 [of ?w port_B MB MA "mk_flags True 0" 3 1 10] h1 h3 h4 h5 h6 h7 h8 h9 by blast
  have pre: "rx_accepted port_B rbr_B ?u MA (mk_flags False 0) 2 1 \<and>
      \<not> trill_get_multidest (mk_flags False 0) \<and> 2 = rbr_nick rbr_B"
    using g1 g2 g4 by simp
  note b = c3 [of ?u port_B MB MA "mk_flags False 0" 1 2 10, THEN conjunct2, THEN mp, OF pre,
      unfolded g5]
  show ?thesis
    by (intro conjI, insert h1 h2 h3 h4 h5 h6 h7 h8 h9 a g1 g2 g3 g4 b, assumption+)
qed

text \<open>
  C4. As stated the claim fails in its first half: a unicast transit frame arriving
  with hop count 1 is not dropped. Line 632 tests the hop count for being non-zero, so
  the frame goes to \<^verbatim>\<open>rbr_fwd\<close>, which sends it on with hop count 0.
\<close>

theorem C4_counterexample:
  "rx_accepted port_B rbr_B (rx_frame port_B MB MA (mk_flags False 1) 3 1)
     MA (mk_flags False 1) 3 1 \<and>
   trill_get_hopcount (mk_flags False 1) = 1 \<and>
   \<not> trill_get_multidest (mk_flags False 1) \<and>
   (3 :: nickname) \<noteq> rbr_nick rbr_B \<and>
   map_option trace (rbr_recv (rx_frame port_B MB MA (mk_flags False 1) 3 1) 10 bridge_B) =
     Some [Br_trill_flood_forward
        ((rx_frame port_B MB MA (mk_flags False 1) 3 1)
           \<lparr>head := ex_trill_frame MC MB (mk_flags False 0) 3 1,
            inner_network_header := 14, inner_transport_header := 14,
            encapsulation := True, dev := Bridge_dev\<rparr>)] \<and>
   map_option rx_dropped (rbr_recv (rx_frame port_B MB MA (mk_flags False 1) 3 1) 10 bridge_B) =
     Some 0"
  by code_simp

text \<open>
  C4, amended. A unicast frame arriving with hop count 1 that passes the checks of the
  receive path is not dropped for its hop count. When its egress nickname is not the
  local one and the egress neighbour is in the table, it is forwarded to that
  neighbour's address with hop count 0; when its egress nickname is the local one, it
  is decapsulated and the inner frame is delivered locally.
\<close>

theorem C4_hop_count_one:
  assumes acc: "rx_accepted p r skb s fl eg ing" and rbr: "br_rbr br = Some r"
    and lay: "rx_layout skb"
    and uni: "\<not> trill_get_multidest fl" and hop: "trill_get_hopcount fl = 1"
    and neq: "eg \<noteq> ing"
  shows "(eg \<noteq> rbr_nick r \<and> rbr_nodes r eg = Some adj \<longrightarrow>
            (\<exists>e br'. rbr_recv skb vid br = Some br' \<and> trace br' = trace br @ [e] \<and>
               is_forward e \<and>
               map_option trill_get_hopcount
                 (th_flags_at (head (event_skb e)) (data (event_skb e))) = Some 0 \<and>
               eth_h_dest (event_skb e) = Some (adjsnpa (rbr_ni adj)) \<and>
               rx_dropped br' = rx_dropped br \<and> tx_dropped br' = tx_dropped br)) \<and>
         (eg = rbr_nick r \<longrightarrow>
            (\<exists>e br'. rbr_recv skb vid br = Some br' \<and> trace br' = trace br @ [e] \<and>
               is_delivery e \<and>
               frame_of (event_skb e) = drop (data skb + sizeof_trill_hdr) (head skb) \<and>
               rx_dropped br' = rx_dropped br \<and> tx_dropped br' = tx_dropped br))"
proof (intro conjI impI)
  assume tr: "eg \<noteq> rbr_nick r \<and> rbr_nodes r eg = Some adj"
  let ?br1 = "br_fdb_update br p s vid"
  have step: "rbr_recv skb vid br = rbr_fwd p (marked skb) eg vid ?br1"
    using rbr_recv_accepted [OF acc rbr] uni hop neq tr by (simp add: rbr_recv_unicast_def)
  have r1: "br_rbr ?br1 = Some r"
    using rbr by (simp add: br_fdb_update_def br_fdb_update_nick_def)
  have v: "VALID_NICK eg" using acc by (simp add: rx_accepted_def)
  have fl: "th_flags_at (head (marked skb)) (data (marked skb)) = Some fl"
    using acc by (simp add: rx_accepted_def)
  have l: "mac_header (marked skb) + 12 \<le> data (marked skb)"
    using lay by (simp add: rx_layout_def ETH_HLEN_def)
  from rbr_fwd_forwards [OF r1 v _ fl l, of adj p vid] tr
  obtain e br' where
    "rbr_fwd p (marked skb) eg vid ?br1 = Some br'" "trace br' = trace ?br1 @ [e]"
    "tx_dropped br' = tx_dropped ?br1" "is_forward e"
    "eth_h_dest (event_skb e) = Some (adjsnpa (rbr_ni adj))"
    "th_flags_at (head (event_skb e)) (data (event_skb e)) = Some (trill_dec_hopcount fl)"
    by auto
  moreover from rbr_fwd_frame [OF this(1)] have "rx_dropped br' = rx_dropped ?br1" by simp
  ultimately show "\<exists>e br'. rbr_recv skb vid br = Some br' \<and> trace br' = trace br @ [e] \<and>
               is_forward e \<and>
               map_option trill_get_hopcount
                 (th_flags_at (head (event_skb e)) (data (event_skb e))) = Some 0 \<and>
               eth_h_dest (event_skb e) = Some (adjsnpa (rbr_ni adj)) \<and>
               rx_dropped br' = rx_dropped br \<and> tx_dropped br' = tx_dropped br"
    using step dec_hopcount_1 [OF hop]
    by (auto simp add: br_fdb_update_def br_fdb_update_nick_def)
next
  assume loc: "eg = rbr_nick r"
  have step: "rbr_recv skb vid br = rbr_decaps (Some p) (marked skb) sizeof_trill_hdr vid br"
    using rbr_recv_accepted [OF acc rbr] uni neq loc by (simp add: rbr_recv_unicast_def)
  have len: "data (marked skb) + sizeof_trill_hdr + ETH_HLEN \<le> length (head (marked skb))"
    using acc by (auto simp add: rx_accepted_def skb_len_def sizeof_trill_hdr_def ETH_HLEN_def)
  from rbr_decaps_delivers [OF len order_refl, of p vid br]
  show "\<exists>e br'. rbr_recv skb vid br = Some br' \<and> trace br' = trace br @ [e] \<and>
               is_delivery e \<and>
               frame_of (event_skb e) = drop (data skb + sizeof_trill_hdr) (head skb) \<and>
               rx_dropped br' = rx_dropped br \<and> tx_dropped br' = tx_dropped br"
    using step by (auto simp add: frame_of_def)
qed

theorem C4_witness:
  "rx_accepted port_B rbr_B (rx_frame port_B MB MA (mk_flags False 1) 3 1)
     MA (mk_flags False 1) 3 1 \<and>
   rx_accepted port_B rbr_B (rx_frame port_B MB MA (mk_flags False 1) 2 1)
     MA (mk_flags False 1) 2 1 \<and>
   (3 :: nickname) \<noteq> rbr_nick rbr_B \<and> rbr_nodes rbr_B 3 = Some (ex_node MC [] [1]) \<and>
   (\<exists>e br'. rbr_recv (rx_frame port_B MB MA (mk_flags False 1) 3 1) 10 bridge_B = Some br' \<and>
      trace br' = trace bridge_B @ [e] \<and> is_forward e \<and>
      map_option trill_get_hopcount
        (th_flags_at (head (event_skb e)) (data (event_skb e))) = Some 0 \<and>
      eth_h_dest (event_skb e) = Some (adjsnpa (rbr_ni (ex_node MC [] [1])))) \<and>
   (\<exists>e br'. rbr_recv (rx_frame port_B MB MA (mk_flags False 1) 2 1) 10 bridge_B = Some br' \<and>
      trace br' = trace bridge_B @ [e] \<and> is_delivery e \<and>
      frame_of (event_skb e) =
        drop (data (rx_frame port_B MB MA (mk_flags False 1) 2 1) + sizeof_trill_hdr)
          (head (rx_frame port_B MB MA (mk_flags False 1) 2 1)))"
proof -
  let ?t = "rx_frame port_B MB MA (mk_flags False 1) 3 1"
  let ?l = "rx_frame port_B MB MA (mk_flags False 1) 2 1"
  have a1: "rx_accepted port_B rbr_B ?t MA (mk_flags False 1) 3 1" by code_simp
  have a2: "rx_accepted port_B rbr_B ?l MA (mk_flags False 1) 2 1" by code_simp
  have r: "br_rbr bridge_B = Some rbr_B" by (simp add: bridge_B_def ex_bridge_def)
  have l1: "rx_layout ?t" by code_simp
  have l2: "rx_layout ?l" by code_simp
  have u: "\<not> trill_get_multidest (mk_flags False 1)" by code_simp
  have h: "trill_get_hopcount (mk_flags False 1) = 1" by code_simp
  have n1: "(3 :: nickname) \<noteq> 1" by simp
  have n2: "(2 :: nickname) \<noteq> 1" by simp
  have t1: "(3 :: nickname) \<noteq> rbr_nick rbr_B" by code_simp
  have t2: "rbr_nodes rbr_B 3 = Some (ex_node MC [] [1])" by code_simp
  have t3: "(2 :: nickname) = rbr_nick rbr_B" by code_simp
  from C4_hop_count_one [OF a1 r l1 u h n1, of "ex_node MC [] [1]" 10] t1 t2
       C4_hop_count_one [OF a2 r l2 u h n2, of "ex_node MC [] [1]" 10] t3 a1 a2
  show ?thesis by blast
qed

section \<open>RBridge state\<close>

text \<open>
  C9. Enabling TRILL on a bridge where it is enabled, and disabling it where it is
  disabled, returns the bridge as it was: local nickname, tree root and neighbour
  table are the same and nothing is allocated. Disabling twice is disabling once, and
  so is enabling twice when the first call enabled TRILL.
\<close>

theorem C9_set_enabled_idempotent:
  "(trill_enabled br \<and> val \<noteq> 0 \<longrightarrow> br_trill_set_enabled br val = br) \<and>
   (\<not> trill_enabled br \<longrightarrow> br_trill_set_enabled br 0 = br) \<and>
   br_trill_set_enabled (br_trill_set_enabled br 0) 0 = br_trill_set_enabled br 0 \<and>
   (val \<noteq> 0 \<and> trill_enabled (br_trill_set_enabled br val) \<longrightarrow>
      br_trill_set_enabled (br_trill_set_enabled br val) val = br_trill_set_enabled br val)"
  by (simp add: br_trill_set_enabled_def br_trill_stop_def Let_def split: option.split)

theorem C9_witness:
  "trill_enabled bridge_B \<and> br_trill_set_enabled bridge_B 1 = bridge_B \<and>
   \<not> trill_enabled (ex_bridge MB None []) \<and>
   br_trill_set_enabled (ex_bridge MB None []) 0 = ex_bridge MB None [] \<and>
   trill_enabled (br_trill_set_enabled (ex_bridge MB None []) 1) \<and>
   br_trill_set_enabled (br_trill_set_enabled (ex_bridge MB None []) 1) 1 =
     br_trill_set_enabled (ex_bridge MB None []) 1"
proof -
  have h1: "trill_enabled bridge_B" by code_simp
  have h2: "\<not> trill_enabled (ex_bridge MB None [])" by code_simp
  have h3: "trill_enabled (br_trill_set_enabled (ex_bridge MB None []) 1)" by code_simp
  have one: "(1 :: 64 word) \<noteq> 0" by simp
  from C9_set_enabled_idempotent [of bridge_B 1]
       C9_set_enabled_idempotent [of "ex_bridge MB None []" 1] h1 h2 h3 one
  show ?thesis by blast
qed

section \<open>The Replicator\<close>

text \<open>
  C5. As stated the claim fails for an invocation with \<open>free = False\<close>, as the receive
  path makes it (line 717): line 239 saves the first surviving adjacency only when
  \<open>free\<close> is set. Here the one surviving adjacency is sent a copy (the allocation is
  used up) and the original buffer is freed, not forwarded.
\<close>

theorem C5_counterexample:
  "survivors rbr_B 3 (Some MC) (adjnicks (rbr_ni (ex_node MA [1, 3] []))) = [1] \<and>
   map_option trace (map_option snd
     (rbr_multidest_fwd (Some port_B) (rx_frame port_B MB MC (mk_flags True 5) 1 3) 1 3
        (Some MC) 10 False (ex_bridge MB (Some rbr_B) [False]))) =
     Some [Br_trill_flood_forward
             ((rx_frame port_B MB MC (mk_flags True 5) 1 3)
                \<lparr>head := ex_trill_frame MA MB (mk_flags True 4) 1 3, dev := Bridge_dev\<rparr>),
           Kfree_skb (rx_frame port_B MB MC (mk_flags True 5) 1 3)] \<and>
   map_option alloc_fail (map_option snd
     (rbr_multidest_fwd (Some port_B) (rx_frame port_B MB MC (mk_flags True 5) 1 3) 1 3
        (Some MC) 10 False (ex_bridge MB (Some rbr_B) [False]))) = Some []"
  by code_simp

text \<open>
  C5, amended. For every Replicator invocation that finds the egress node and in which
  no buffer copy fails: with \<open>free\<close> set, the first surviving adjacency (valid nickname,
  not the ingress nickname, in the neighbour table, not at the pruned source MAC) is
  remembered, copies are made and forwarded for the later survivors only, in order, and
  after the loop the original buffer is forwarded to the remembered adjacency; with
  \<open>free\<close> not set, every survivor is sent a copy and the original is freed; when no
  adjacency survives the original is freed. This is \<open>replicator_spec\<close> on the
  survivors.
\<close>

theorem C5_replicator_refines_spec:
  assumes rbr: "br_rbr br = Some r"
    and egress: "VALID_NICK egressnick" "rbr_nodes r egressnick = Some dest"
    and nofail: "True \<notin> set (alloc_fail br)"
  shows "rbr_multidest_fwd (Some p) skb egressnick ingressnick saddr vid free br =
           map_option (Pair 0)
             (replicator_spec p skb vid free
                (survivors r ingressnick saddr (adjnicks (rbr_ni dest))) br)"
proof (cases free)
  case True
  let ?sv = "survivors r ingressnick saddr (adjnicks (rbr_ni dest))"
  note loop = multidest_loop_first [OF nofail, of p r skb ingressnick saddr vid
        "adjnicks (rbr_ni dest)" 0]
  show ?thesis
  proof (cases ?sv)
    case Nil
    with loop rbr egress True show ?thesis
      by (simp add: rbr_multidest_fwd_def rbr_find_node_Some replicator_spec_def)
  next
    case (Cons n ns)
    show ?thesis
    proof (cases "fwd_copies p skb vid ns br")
      case None
      with loop rbr egress True Cons show ?thesis
        by (simp add: rbr_multidest_fwd_def rbr_find_node_Some replicator_spec_def)
    next
      case (Some br1)
      with loop rbr egress True Cons show ?thesis
        by (simp add: rbr_multidest_fwd_def rbr_find_node_Some replicator_spec_def)
    qed
  qed
next
  case False
  let ?sv = "survivors r ingressnick saddr (adjnicks (rbr_ni dest))"
  have loop: "multidest_loop p r skb ingressnick saddr vid free (adjnicks (rbr_ni dest)) False 0 br =
           map_option (Pair (Loop_done False 0)) (fwd_copies p skb vid ?sv br)"
    using multidest_loop_copies [of False free br] False nofail by simp
  show ?thesis
  proof (cases "fwd_copies p skb vid ?sv br")
    case None
    with loop rbr egress False show ?thesis
      by (cases ?sv) (simp_all add: rbr_multidest_fwd_def rbr_find_node_Some replicator_spec_def)
  next
    case (Some br1)
    with loop rbr egress False show ?thesis
      by (cases ?sv) (simp_all add: rbr_multidest_fwd_def rbr_find_node_Some replicator_spec_def)
  qed
qed

theorem C5_witness:
  "br_rbr bridge_B = Some rbr_B \<and> VALID_NICK 1 \<and>
   rbr_nodes rbr_B 1 = Some (ex_node MA [1, 3] []) \<and>
   True \<notin> set (alloc_fail bridge_B) \<and>
   survivors rbr_B 2 None (adjnicks (rbr_ni (ex_node MA [1, 3] []))) = [1, 3] \<and>
   rbr_multidest_fwd (Some port_B) (rx_frame port_B MB MC (mk_flags True 5) 1 2) 1 2 None 10
       True bridge_B =
     map_option (Pair 0)
       (replicator_spec port_B (rx_frame port_B MB MC (mk_flags True 5) 1 2) 10 True
          (survivors rbr_B 2 None (adjnicks (rbr_ni (ex_node MA [1, 3] [])))) bridge_B) \<and>
   map_option trace
       (replicator_spec port_B (rx_frame port_B MB MC (mk_flags True 5) 1 2) 10 True
          [1, 3] bridge_B) =
     Some [Br_trill_flood_forward
             ((rx_frame port_B MB MC (mk_flags True 5) 1 2)
                \<lparr>head := ex_trill_frame MC MB (mk_flags True 4) 1 2, dev := Bridge_dev\<rparr>),
           Br_trill_flood_forward
             ((rx_frame port_B MB MC (mk_flags True 5) 1 2)
                \<lparr>head := ex_trill_frame MA MB (mk_flags True 4) 1 2, dev := Bridge_dev\<rparr>)]"
proof -
  have h1: "br_rbr bridge_B = Some rbr_B" by (simp add: bridge_B_def ex_bridge_def)
  have h2: "VALID_NICK 1" by code_simp
  have h3: "rbr_nodes rbr_B 1 = Some (ex_node MA [1, 3] [])" by code_simp
  have h4: "True \<notin> set (alloc_fail bridge_B)" by (simp add: bridge_B_def ex_bridge_def)
  have h5: "survivors rbr_B 2 None (adjnicks (rbr_ni (ex_node MA [1, 3] []))) = [1, 3]"
    by code_simp
  have h6: "map_option trace
       (replicator_spec port_B (rx_frame port_B MB MC (mk_flags True 5) 1 2) 10 True
          [1, 3] bridge_B) =
     Some [Br_trill_flood_forward
             ((rx_frame port_B MB MC (mk_flags True 5) 1 2)
                \<lparr>head := ex_trill_frame MC MB (mk_flags True 4) 1 2, dev := Bridge_dev\<rparr>),
           Br_trill_flood_forward
             ((rx_frame port_B MB MC (mk_flags True 5) 1 2)
                \<lparr>head := ex_trill_frame MA MB (mk_flags True 4) 1 2, dev := Bridge_dev\<rparr>)]"
    by code_simp
  from C5_replicator_refines_spec [OF h1 h2 h3 h4, of port_B
         "rx_frame port_B MB MC (mk_flags True 5) 1 2" 2 None 10 True]
       h1 h2 h3 h4 h5 h6
  show ?thesis by blast
qed

text \<open>
  C6. For a multi-destination frame that enters with outer source MAC \<open>S\<close> and ingress
  nickname \<open>I\<close>, no copy the receive path emits has outer destination MAC \<open>S\<close>, and every
  copy is addressed to a neighbour whose nickname is not \<open>I\<close>.
\<close>

theorem C6_no_copy_back_to_source_or_ingress:
  assumes run: "rbr_recv skb vid br = Some br'" and rbr: "br_rbr br = Some r"
    and src: "eth_h_source skb = Some S"
    and fl: "th_flags_at (head skb) (data skb) = Some fl" and md: "trill_get_multidest fl"
    and ing: "th_ingressnick_at (head skb) (data skb) = Some I"
  shows "\<forall>e\<in>set (new_events br br'). is_forward e \<longrightarrow>
           eth_h_dest (event_skb e) \<noteq> Some S \<and> (\<exists>a. a \<noteq> I \<and> addressed_to r a e)"
proof -
  have "\<exists>evs. trace br' = trace br @ evs \<and>
           (\<forall>e\<in>set evs. is_forward e \<longrightarrow> (\<exists>a. survives r I (Some S) a \<and> addressed_to r a e))"
  proof (cases "\<exists>p skb'. br' = recv_drop p skb' br")
    case True
    then show ?thesis using recv_drop_events [of _ _ br] by fastforce
  next
    case False
    from ing have len: "data skb + 6 \<le> length (head skb)" by (rule th_ingress_SomeD)
    from len obtain eg where eg: "th_egressnick_at (head skb) (data skb) = Some eg"
      using th_egress_readable [of "data skb" "head skb"] by auto
    have nl: "\<not> skb_len skb < sizeof_trill_hdr + trill_get_optslen fl + ETH_HLEN"
      using run False src fl
      by (auto simp add: rbr_recv_def split: option.splits bind_splits if_splits; blast)
    then have "sizeof_trill_hdr + trill_get_optslen fl + ETH_HLEN \<le> skb_len skb" by simp
    note m = recv_mark_encapsulated_eq [OF this, folded marked_def]
    from run False src fl nl m ing eg rbr md obtain p n where
      "rbr_recv_multidest p r (marked skb) vid S fl n eg I (rbr_treeroot r) br = Some br'"
      by (auto simp add: rbr_recv_def pskb_may_pull_def Let_def
          split: option.splits bind_splits if_splits; blast)
    from rbr_recv_multidest_targets [OF this rbr] show ?thesis .
  qed
  then obtain evs where evs: "trace br' = trace br @ evs"
    "\<forall>e\<in>set evs. is_forward e \<longrightarrow> (\<exists>a. survives r I (Some S) a \<and> addressed_to r a e)"
    by auto
  have "new_events br br' = evs" using evs by (simp add: new_events_def)
  then show ?thesis
    using evs(2) by (fastforce simp add: survives_def addressed_to_def split: option.splits)
qed

theorem C6_witness:
  "br_rbr bridge_B = Some rbr_B \<and>
   eth_h_source (rx_frame port_B MB MC (mk_flags True 5) 1 3) = Some MC \<and>
   th_flags_at (head (rx_frame port_B MB MC (mk_flags True 5) 1 3))
     (data (rx_frame port_B MB MC (mk_flags True 5) 1 3)) = Some (mk_flags True 5) \<and>
   trill_get_multidest (mk_flags True 5) \<and>
   th_ingressnick_at (head (rx_frame port_B MB MC (mk_flags True 5) 1 3))
     (data (rx_frame port_B MB MC (mk_flags True 5) 1 3)) = Some 3 \<and>
   (\<exists>br'. rbr_recv (rx_frame port_B MB MC (mk_flags True 5) 1 3) 10 bridge_B = Some br' \<and>
      map is_forward (trace br') = [True, False, False] \<and>
      (\<forall>e\<in>set (new_events bridge_B br'). is_forward e \<longrightarrow>
         eth_h_dest (event_skb e) \<noteq> Some MC \<and> (\<exists>a. a \<noteq> 3 \<and> addressed_to rbr_B a e)))"
proof -
  let ?w = "rx_frame port_B MB MC (mk_flags True 5) 1 3"
  have h1: "br_rbr bridge_B = Some rbr_B" by (simp add: bridge_B_def ex_bridge_def)
  have h2: "eth_h_source ?w = Some MC" by code_simp
  have h3: "th_flags_at (head ?w) (data ?w) = Some (mk_flags True 5)" by code_simp
  have h4: "trill_get_multidest (mk_flags True 5)" by code_simp
  have h5: "th_ingressnick_at (head ?w) (data ?w) = Some 3" by code_simp
  have "map_option (map is_forward) (map_option trace (rbr_recv ?w 10 bridge_B)) =
          Some [True, False, False]"
    by code_simp
  then obtain br' where run: "rbr_recv ?w 10 bridge_B = Some br'"
    and tr: "map is_forward (trace br') = [True, False, False]"
    by (cases "rbr_recv ?w 10 bridge_B") auto
  note c = C6_no_copy_back_to_source_or_ingress [OF run h1 h2 h3 h4 h5]
  show ?thesis
    by (intro conjI exI [of _ br'], insert h1 h2 h3 h4 h5 run tr c, assumption+)
qed

section \<open>Encapsulation and decapsulation\<close>

text \<open>
  C7. As stated the claim fails for a buffer that carries an accelerated VLAN tag:
  lines 306--314 put the tag into the frame before the TRILL header is pushed, so the
  frame delivered after decapsulation is four bytes longer than the input frame.
\<close>

theorem C7_counterexample:
  "br_vlan_get_tag (guest_frame port_A 0x100A) = Some 10 \<and>
   frame_of (guest_frame port_A 0x100A) = ex_inner \<and>
   map_option (map (frame_of \<circ> event_skb) \<circ> trace)
     (encaps_then_decaps 21 (guest_frame port_A 0x100A) 1 2 bridge_B port_B 10 bridge_B) =
     Some [vlan_tagged ex_inner 0x8100 10] \<and>
   length (vlan_tagged ex_inner 0x8100 10) = length ex_inner + 4"
  by code_simp

text \<open>
  C7, amended. When the unicast encapsulation at RBridge A with egress nickname B
  succeeds and the buffer reaches B unchanged from the nicknames of the TRILL header on
  (the hop count and the outer addresses may have been rewritten), decapsulation at B
  delivers the input frame byte for byte when the buffer carried no accelerated VLAN
  tag, and the input frame with the tag (the buffer's \<^verbatim>\<open>vlan_proto\<close> and its VLAN id)
  put in after the MAC addresses when it did; in both cases B's fdb records
  \<open>{inner source MAC, vid, ingress nickname A}\<close> for the receiving port.
\<close>

theorem C7_encaps_decaps_round_trip:
  assumes enc: "rbr_encaps hops skb A B False brA = Some (False, skb1, brA')"
    and lay: "rx_layout skb" and len: "data skb \<le> length (head skb)"
    and wire: "drop (data skb2 + 2) (head skb2) = drop (data skb1 + 2) (head skb1)"
  shows "\<exists>e br' src. rbr_decaps (Some p) skb2 sizeof_trill_hdr vid brB = Some br' \<and>
           trace br' = trace brB @ [e] \<and> is_delivery e \<and>
           frame_of (event_skb e) =
             (case br_vlan_get_tag skb of
                None \<Rightarrow> frame_of skb
              | Some tci \<Rightarrow> vlan_tagged (frame_of skb) (vlan_proto skb) tci) \<and>
           eth_h_source skb = Some src \<and>
           fdb br' (src, vid) = Some \<lparr>fdb_dst = p, fdb_used = jiffies brB, fdb_nick = A\<rparr>"
proof -
  let ?F = "case br_vlan_get_tag skb of
                None \<Rightarrow> frame_of skb
              | Some tci \<Rightarrow> vlan_tagged (frame_of skb) (vlan_proto skb) tci"
  have fr: "drop (data skb - ETH_HLEN) (head skb) = frame_of skb"
    using lay by (simp add: rx_layout_def frame_of_def)
  have fl: "ETH_HLEN \<le> length (frame_of skb)"
    using lay len by (simp add: rx_layout_def frame_of_def)
  then have Fl: "ETH_HLEN \<le> length ?F"
    by (auto simp add: vlan_tagged_def ETH_ALEN_def ETH_HLEN_def split: option.splits)
  note e = rbr_encaps_ok [OF enc len, unfolded fr]
  then have pl1: "drop (data skb1) (head skb1) =
      be16_bytes (mk_flags False hops) @ host16_bytes B @ host16_bytes A @ ?F" by simp
  have "drop (data skb1 + 2) (head skb1) = drop 2 (drop (data skb1) (head skb1))"
    by (simp add: add.commute)
  with pl1 wire have pl2: "drop (data skb2 + 2) (head skb2) = host16_bytes B @ host16_bytes A @ ?F"
    by simp
  have "length (drop (data skb2 + 2) (head skb2)) = 4 + length ?F" using pl2 by simp
  then have l2: "data skb2 + sizeof_trill_hdr + ETH_HLEN \<le> length (head skb2)"
    using Fl by (simp add: sizeof_trill_hdr_def ETH_HLEN_def)
  have g: "get_bytes (head skb2) (data skb2 + 2 + 2) 2 = Some (host16_bytes A)"
    by (rule get_bytes_via_drop [OF pl2]) simp_all
  have e4: "data skb2 + 2 + 2 = data skb2 + 4" by simp
  have ing: "th_ingressnick_at (head skb2) (data skb2) = Some A"
    using g [unfolded e4] by (simp add: th_ingressnick_at_def)
  have "drop (data skb2 + 6) (head skb2) = drop 4 (drop (data skb2 + 2) (head skb2))"
    by (simp add: add.commute)
  with pl2 have F2: "drop (data skb2 + sizeof_trill_hdr) (head skb2) = ?F"
    by (simp add: sizeof_trill_hdr_def)
  have "h_source_at (head skb2) (data skb2 + sizeof_trill_hdr) = h_source_at ?F 0"
    using h_source_at_drop [of "head skb2" "data skb2 + sizeof_trill_hdr"] F2 by simp
  also have "\<dots> = h_source_at (frame_of skb) 0"
    using fl by (simp add: h_source_at_tagged ETH_HLEN_def ETH_ALEN_def split: option.splits)
  also have "\<dots> = eth_h_source skb"
    using h_source_at_drop [of "head skb" "mac_header skb"]
    by (simp add: eth_h_source_def frame_of_def)
  finally have src: "h_source_at (head skb2) (data skb2 + sizeof_trill_hdr) = eth_h_source skb" .
  from rbr_decaps_delivers [OF l2 order_refl, of p vid brB] ing src F2
  show ?thesis by (auto simp add: frame_of_def)
qed

theorem C7_witness:
  "rx_layout (guest_frame port_A 0) \<and>
   data (guest_frame port_A 0) \<le> length (head (guest_frame port_A 0)) \<and>
   br_vlan_get_tag (guest_frame port_A 0) = None \<and>
   (\<exists>skb1 brA'. rbr_encaps 21 (guest_frame port_A 0) 1 2 False bridge_B =
        Some (False, skb1, brA') \<and>
      (\<exists>e br'. rbr_decaps (Some port_B) skb1 sizeof_trill_hdr 10 bridge_B = Some br' \<and>
         trace br' = trace bridge_B @ [e] \<and> is_delivery e \<and>
         frame_of (event_skb e) = frame_of (guest_frame port_A 0) \<and>
         eth_h_source (guest_frame port_A 0) = Some ES1 \<and>
         fdb br' (ES1, 10) =
           Some \<lparr>fdb_dst = port_B, fdb_used = jiffies bridge_B, fdb_nick = 1\<rparr>))"
proof -
  let ?w = "guest_frame port_A 0"
  have h1: "rx_layout ?w" by code_simp
  have h2: "data ?w \<le> length (head ?w)" by code_simp
  have h3: "br_vlan_get_tag ?w = None" by code_simp
  have h4: "eth_h_source ?w = Some ES1" by code_simp
  have "map_option fst (rbr_encaps 21 ?w 1 2 False bridge_B) = Some False" by code_simp
  then obtain skb1 brA' where enc: "rbr_encaps 21 ?w 1 2 False bridge_B = Some (False, skb1, brA')"
    by (cases "rbr_encaps 21 ?w 1 2 False bridge_B") auto
  from C7_encaps_decaps_round_trip [OF enc h1 h2 refl, of port_B 10 bridge_B] h3 h4
  have "\<exists>e br'. rbr_decaps (Some port_B) skb1 sizeof_trill_hdr 10 bridge_B = Some br' \<and>
         trace br' = trace bridge_B @ [e] \<and> is_delivery e \<and>
         frame_of (event_skb e) = frame_of ?w \<and>
         eth_h_source ?w = Some ES1 \<and>
         fdb br' (ES1, 10) =
           Some \<lparr>fdb_dst = port_B, fdb_used = jiffies bridge_B, fdb_nick = 1\<rparr>"
    by auto
  with enc h1 h2 h3 show ?thesis by blast
qed


section \<open>Flooding a native frame\<close>

text \<open>
  C8. As stated the claim fails: with a valid local nickname and a valid tree root that is
  in the neighbour table, but no entry for the local nickname itself, the frame is not
  encapsulated for the tree root; lines 388--391 drop it (the daemon has not yet sent the
  local nickname).
\<close>

theorem C8_counterexample:
  "br_port_get_rcu (dev (guest_frame port_B 0)) = Some port_B \<and>
   br_rbr bridge_B = Some rbr_B \<and>
   VALID_NICK (rbr_nick rbr_B) \<and>
   VALID_NICK (rbr_treeroot rbr_B) \<and>
   rbr_nodes rbr_B (rbr_treeroot rbr_B) = Some (ex_node MA [1, 3] []) \<and>
   rbr_nodes rbr_B (rbr_nick rbr_B) = None \<and>
   True \<notin> set (alloc_fail bridge_B) \<and>
   map_option trace (rbr_encaps_prepare 10 (guest_frame port_B 0) RBRIDGE_NICKNAME_NONE 0
      bridge_B) = Some [Kfree_skb (guest_frame port_B 0)] \<and>
   map_option tx_dropped (rbr_encaps_prepare 10 (guest_frame port_B 0) RBRIDGE_NICKNAME_NONE 0
      bridge_B) = Some 1"
  by code_simp

text \<open>
  C8, amended. \<^verbatim>\<open>rbr_encaps_prepare\<close> is called with the egress nickname
  \<^verbatim>\<open>RBRIDGE_NICKNAME_NONE\<close> on a frame that came in on a bridge port, and the local nickname
  is valid.  If the local node is not in the neighbour table the frame is dropped.  If it
  is, the root is the first root the local node advertises when it advertises one, and the
  tree root of the bridge otherwise (\<^const>\<open>chosen_root\<close>).  If that root is not a valid
  nickname the frame is dropped: the transmit-drop counter goes up by one, the buffer is
  freed and nothing else happens.  If it is valid, every encapsulated copy that the call
  forwards carries the root as its egress nickname and the local nickname as its ingress
  nickname.  When moreover no allocation fails and the buffer has its Ethernet header in
  front of \<^verbatim>\<open>skb->data\<close>, the buffer handed to the Replicator carries the multi-destination
  flag, the root as egress and the local nickname as ingress nickname, and the Replicator is
  called for the root; when the root is in the neighbour table the call returns after the
  local delivery and one forwarded copy for each surviving adjacency of the root, the first
  one served last.
\<close>

theorem C8_flood_uses_chosen_root:
  assumes port: "br_port_get_rcu (dev skb) = Some p" and rbr: "br_rbr br = Some r"
    and local: "VALID_NICK (rbr_nick r)"
  shows "(rbr_nodes r (rbr_nick r) = None \<longrightarrow>
            rbr_encaps_prepare hops skb RBRIDGE_NICKNAME_NONE vid br =
              Some (br\<lparr>tx_dropped := tx_dropped br + 1, trace := trace br @ [Kfree_skb skb]\<rparr>)) \<and>
         (\<forall>self. rbr_nodes r (rbr_nick r) = Some self \<longrightarrow>
            (\<not> VALID_NICK (chosen_root r self) \<longrightarrow>
               rbr_encaps_prepare hops skb RBRIDGE_NICKNAME_NONE vid br =
                 Some (br\<lparr>tx_dropped := tx_dropped br + 1,
                         trace := trace br @ [Kfree_skb skb]\<rparr>)) \<and>
            (VALID_NICK (chosen_root r self) \<and> data skb \<le> length (head skb) \<longrightarrow>
               (\<forall>br'. rbr_encaps_prepare hops skb RBRIDGE_NICKNAME_NONE vid br = Some br' \<longrightarrow>
                  (\<forall>e\<in>set (new_events br br'). is_forward e \<longrightarrow>
                     th_egressnick_at (head (event_skb e)) (data (event_skb e)) =
                       Some (chosen_root r self) \<and>
                     th_ingressnick_at (head (event_skb e)) (data (event_skb e)) =
                       Some (rbr_nick r)))) \<and>
            (VALID_NICK (chosen_root r self) \<and> ETH_HLEN \<le> data skb \<and>
             data skb \<le> length (head skb) \<and> True \<notin> set (alloc_fail br) \<longrightarrow>
               (\<exists>skb3 br3.
                  th_flags_at (head skb3) (data skb3) = Some (mk_flags True hops) \<and>
                  th_egressnick_at (head skb3) (data skb3) = Some (chosen_root r self) \<and>
                  th_ingressnick_at (head skb3) (data skb3) = Some (rbr_nick r) \<and>
                  trace br3 = trace br @ [Br_endstation_deliver (skb\<lparr>cloned := True\<rparr>)] \<and>
                  tx_dropped br3 = tx_dropped br \<and>
                  rbr_encaps_prepare hops skb RBRIDGE_NICKNAME_NONE vid br =
                    map_option snd
                      (rbr_multidest_fwd (Some p) skb3 (chosen_root r self) (rbr_nick r) None vid
                         True br3)) \<and>
               (\<forall>dest. rbr_nodes r (chosen_root r self) = Some dest \<longrightarrow>
                  (\<exists>br' evs.
                     rbr_encaps_prepare hops skb RBRIDGE_NICKNAME_NONE vid br = Some br' \<and>
                     trace br' =
                       trace br @ Br_endstation_deliver (skb\<lparr>cloned := True\<rparr>) # evs \<and>
                     tx_dropped br' = tx_dropped br \<and>
                     (case survivors r (rbr_nick r) None (adjnicks (rbr_ni dest)) of
                        [] \<Rightarrow> \<exists>skb3. evs = [Kfree_skb skb3]
                      | n # ns \<Rightarrow>
                          map (\<lambda>e. eth_h_dest (event_skb e)) evs =
                            map (\<lambda>n. map_option (\<lambda>a. adjsnpa (rbr_ni a)) (rbr_nodes r n))
                              (ns @ [n]) \<and>
                          (\<forall>e\<in>set evs. is_forward e \<and>
                             th_egressnick_at (head (event_skb e)) (data (event_skb e)) =
                               Some (chosen_root r self) \<and>
                             th_ingressnick_at (head (event_skb e)) (data (event_skb e)) =
                               Some (rbr_nick r)))))))"
proof (intro conjI impI allI)
  assume "rbr_nodes r (rbr_nick r) = None"
  then show "rbr_encaps_prepare hops skb RBRIDGE_NICKNAME_NONE vid br =
      Some (br\<lparr>tx_dropped := tx_dropped br + 1, trace := trace br @ [Kfree_skb skb]\<rparr>)"
    using port rbr local
    by (simp add: rbr_encaps_prepare_def rbr_encaps_flood_def rbr_find_node_Some encaps_drop_eq
        Let_def)
next
  fix self
  assume self: "rbr_nodes r (rbr_nick r) = Some self"
    and "\<not> VALID_NICK (chosen_root r self)"
  then show "rbr_encaps_prepare hops skb RBRIDGE_NICKNAME_NONE vid br =
      Some (br\<lparr>tx_dropped := tx_dropped br + 1, trace := trace br @ [Kfree_skb skb]\<rparr>)"
    by (simp add: rbr_encaps_prepare_flood [OF port rbr local self] encaps_drop_eq)
next
  fix self br'
  assume self: "rbr_nodes r (rbr_nick r) = Some self"
    and v: "VALID_NICK (chosen_root r self) \<and> data skb \<le> length (head skb)"
    and run: "rbr_encaps_prepare hops skb RBRIDGE_NICKNAME_NONE vid br = Some br'"
  from flood_copies_carry_root [OF port rbr local self v [THEN conjunct1] v [THEN conjunct2] run]
  show "\<forall>e\<in>set (new_events br br'). is_forward e \<longrightarrow>
          th_egressnick_at (head (event_skb e)) (data (event_skb e)) =
            Some (chosen_root r self) \<and>
          th_ingressnick_at (head (event_skb e)) (data (event_skb e)) = Some (rbr_nick r)"
    by (auto simp add: new_events_def)
next
  fix self
  assume self: "rbr_nodes r (rbr_nick r) = Some self"
    and v: "VALID_NICK (chosen_root r self) \<and> ETH_HLEN \<le> data skb \<and>
             data skb \<le> length (head skb) \<and> True \<notin> set (alloc_fail br)"
  from v have a: "VALID_NICK (chosen_root r self)" "ETH_HLEN \<le> data skb"
    "data skb \<le> length (head skb)" "True \<notin> set (alloc_fail br)" by simp_all
  from flood_hands_to_replicator [OF port rbr local self a, of hops vid]
  show "\<exists>skb3 br3.
          th_flags_at (head skb3) (data skb3) = Some (mk_flags True hops) \<and>
          th_egressnick_at (head skb3) (data skb3) = Some (chosen_root r self) \<and>
          th_ingressnick_at (head skb3) (data skb3) = Some (rbr_nick r) \<and>
          trace br3 = trace br @ [Br_endstation_deliver (skb\<lparr>cloned := True\<rparr>)] \<and>
          tx_dropped br3 = tx_dropped br \<and>
          rbr_encaps_prepare hops skb RBRIDGE_NICKNAME_NONE vid br =
            map_option snd
              (rbr_multidest_fwd (Some p) skb3 (chosen_root r self) (rbr_nick r) None vid
                 True br3)"
    by blast
next
  fix self dest
  assume self: "rbr_nodes r (rbr_nick r) = Some self"
    and v: "VALID_NICK (chosen_root r self) \<and> ETH_HLEN \<le> data skb \<and>
             data skb \<le> length (head skb) \<and> True \<notin> set (alloc_fail br)"
    and dest: "rbr_nodes r (chosen_root r self) = Some dest"
  from v have a: "VALID_NICK (chosen_root r self)" "ETH_HLEN \<le> data skb"
    "data skb \<le> length (head skb)" "True \<notin> set (alloc_fail br)" by simp_all
  show "\<exists>br' evs.
          rbr_encaps_prepare hops skb RBRIDGE_NICKNAME_NONE vid br = Some br' \<and>
          trace br' = trace br @ Br_endstation_deliver (skb\<lparr>cloned := True\<rparr>) # evs \<and>
          tx_dropped br' = tx_dropped br \<and>
          (case survivors r (rbr_nick r) None (adjnicks (rbr_ni dest)) of
             [] \<Rightarrow> \<exists>skb3. evs = [Kfree_skb skb3]
           | n # ns \<Rightarrow>
               map (\<lambda>e. eth_h_dest (event_skb e)) evs =
                 map (\<lambda>n. map_option (\<lambda>a. adjsnpa (rbr_ni a)) (rbr_nodes r n)) (ns @ [n]) \<and>
               (\<forall>e\<in>set evs. is_forward e \<and>
                  th_egressnick_at (head (event_skb e)) (data (event_skb e)) =
                    Some (chosen_root r self) \<and>
                  th_ingressnick_at (head (event_skb e)) (data (event_skb e)) =
                    Some (rbr_nick r)))"
    by (rule flood_forwards [OF port rbr local self a dest])
qed

theorem C8_witness:
  "br_port_get_rcu (dev (guest_frame port_A 0)) = Some port_A \<and>
   ETH_HLEN \<le> data (guest_frame port_A 0) \<and>
   data (guest_frame port_A 0) \<le> length (head (guest_frame port_A 0)) \<and>
   br_rbr (ex_bridge MA (Some (rbr_A [3] 1)) []) = Some (rbr_A [3] 1) \<and>
   VALID_NICK (rbr_nick (rbr_A [3] 1)) \<and>
   rbr_nodes (rbr_A [3] 1) (rbr_nick (rbr_A [3] 1)) = Some (ex_node MA [2, 3] [3]) \<and>
   chosen_root (rbr_A [3] 1) (ex_node MA [2, 3] [3]) = 3 \<and>
   VALID_NICK 3 \<and>
   True \<notin> set (alloc_fail (ex_bridge MA (Some (rbr_A [3] 1)) [])) \<and>
   rbr_nodes (rbr_A [3] 1) 3 = Some (ex_node MC [2] []) \<and>
   (\<exists>br' evs.
      rbr_encaps_prepare 10 (guest_frame port_A 0) RBRIDGE_NICKNAME_NONE 0
        (ex_bridge MA (Some (rbr_A [3] 1)) []) = Some br' \<and>
      trace br' = Br_endstation_deliver ((guest_frame port_A 0)\<lparr>cloned := True\<rparr>) # evs \<and>
      tx_dropped br' = tx_dropped (ex_bridge MA (Some (rbr_A [3] 1)) []) \<and>
      map (\<lambda>e. eth_h_dest (event_skb e)) evs = [Some MB] \<and>
      (\<forall>e\<in>set evs. is_forward e \<and>
         th_egressnick_at (head (event_skb e)) (data (event_skb e)) = Some 3 \<and>
         th_ingressnick_at (head (event_skb e)) (data (event_skb e)) = Some 1)) \<and>
   br_rbr (ex_bridge MA (Some (rbr_A [] 1)) []) = Some (rbr_A [] 1) \<and>
   VALID_NICK (rbr_nick (rbr_A [] 1)) \<and>
   rbr_nodes (rbr_A [] 1) (rbr_nick (rbr_A [] 1)) = Some (ex_node MA [2, 3] []) \<and>
   chosen_root (rbr_A [] 1) (ex_node MA [2, 3] []) = rbr_treeroot (rbr_A [] 1) \<and>
   rbr_treeroot (rbr_A [] 1) = 1 \<and>
   VALID_NICK 1 \<and>
   True \<notin> set (alloc_fail (ex_bridge MA (Some (rbr_A [] 1)) [])) \<and>
   (\<exists>br' evs.
      rbr_encaps_prepare 10 (guest_frame port_A 0) RBRIDGE_NICKNAME_NONE 0
        (ex_bridge MA (Some (rbr_A [] 1)) []) = Some br' \<and>
      trace br' = Br_endstation_deliver ((guest_frame port_A 0)\<lparr>cloned := True\<rparr>) # evs \<and>
      tx_dropped br' = tx_dropped (ex_bridge MA (Some (rbr_A [] 1)) []) \<and>
      map (\<lambda>e. eth_h_dest (event_skb e)) evs = [Some MC, Some MB] \<and>
      (\<forall>e\<in>set evs. is_forward e \<and>
         th_egressnick_at (head (event_skb e)) (data (event_skb e)) = Some 1 \<and>
         th_ingressnick_at (head (event_skb e)) (data (event_skb e)) = Some 1)) \<and>
   br_rbr (ex_bridge MA (Some (rbr_A [] 0)) []) = Some (rbr_A [] 0) \<and>
   VALID_NICK (rbr_nick (rbr_A [] 0)) \<and>
   rbr_nodes (rbr_A [] 0) (rbr_nick (rbr_A [] 0)) = Some (ex_node MA [2, 3] []) \<and>
   chosen_root (rbr_A [] 0) (ex_node MA [2, 3] []) = 0 \<and>
   \<not> VALID_NICK 0 \<and>
   map_option trace (rbr_encaps_prepare 10 (guest_frame port_A 0) RBRIDGE_NICKNAME_NONE 0
      (ex_bridge MA (Some (rbr_A [] 0)) [])) = Some [Kfree_skb (guest_frame port_A 0)] \<and>
   map_option tx_dropped (rbr_encaps_prepare 10 (guest_frame port_A 0) RBRIDGE_NICKNAME_NONE 0
      (ex_bridge MA (Some (rbr_A [] 0)) [])) = Some 1 \<and>
   br_port_get_rcu (dev (guest_frame port_B 0)) = Some port_B \<and>
   br_rbr bridge_B = Some rbr_B \<and>
   VALID_NICK (rbr_nick rbr_B) \<and>
   rbr_nodes rbr_B (rbr_nick rbr_B) = None \<and>
   rbr_encaps_prepare 10 (guest_frame port_B 0) RBRIDGE_NICKNAME_NONE 0 bridge_B =
     Some (bridge_B\<lparr>tx_dropped := tx_dropped bridge_B + 1,
             trace := trace bridge_B @ [Kfree_skb (guest_frame port_B 0)]\<rparr>)"
proof -
  let ?w = "guest_frame port_A 0"
  let ?ra = "rbr_A [3] 1" and ?sa = "ex_node MA [2, 3] [3]"
  let ?ba = "ex_bridge MA (Some ?ra) []"
  let ?rt = "rbr_A [] 1" and ?st = "ex_node MA [2, 3] []"
  let ?bt = "ex_bridge MA (Some ?rt) []"
  let ?rz = "rbr_A [] 0"
  let ?bz = "ex_bridge MA (Some ?rz) []"
  let ?v = "guest_frame port_B 0"
  have w1: "br_port_get_rcu (dev ?w) = Some port_A" by code_simp
  have w2: "ETH_HLEN \<le> data ?w" by code_simp
  have w3: "data ?w \<le> length (head ?w)" by code_simp
  have a1: "br_rbr ?ba = Some ?ra" by (simp add: ex_bridge_def)
  have a2: "VALID_NICK (rbr_nick ?ra)" by code_simp
  have a3: "rbr_nodes ?ra (rbr_nick ?ra) = Some ?sa" by (simp add: rbr_A_def)
  have a4: "chosen_root ?ra ?sa = 3" by code_simp
  have a5: "VALID_NICK 3" by code_simp
  have a6: "True \<notin> set (alloc_fail ?ba)" by (simp add: ex_bridge_def)
  have a7: "rbr_nodes ?ra 3 = Some (ex_node MC [2] [])" by (simp add: rbr_A_def)
  have a8: "survivors ?ra 1 None (adjnicks (rbr_ni (ex_node MC [2] []))) = [2]"
    by code_simp
  have a9: "map (\<lambda>n. map_option (\<lambda>a. adjsnpa (rbr_ni a)) (rbr_nodes ?ra n)) [2] = [Some MB]"
    by (simp add: rbr_A_def ex_node_def)
  have a10: "rbr_nick ?ra = 1" by (simp add: rbr_A_def)
  have a11: "trace ?ba = []" by (simp add: ex_bridge_def)
  note ta = C8_flood_uses_chosen_root [OF w1 a1 a2, of 10 0, THEN conjunct2, rule_format, OF a3]
  note fa = ta [THEN conjunct2, THEN conjunct2, unfolded a4, rule_format,
      OF conjI [OF a5 conjI [OF w2 conjI [OF w3 a6]]], THEN conjunct2, rule_format, OF a7,
      unfolded a10 a11 a8 list.case append.simps a9]
  have t1: "br_rbr ?bt = Some ?rt" by (simp add: ex_bridge_def)
  have t2: "VALID_NICK (rbr_nick ?rt)" by code_simp
  have t3: "rbr_nodes ?rt (rbr_nick ?rt) = Some ?st" by (simp add: rbr_A_def)
  have t4: "chosen_root ?rt ?st = rbr_treeroot ?rt" by code_simp
  have t5: "rbr_treeroot ?rt = 1" by (simp add: rbr_A_def)
  have t6: "VALID_NICK 1" by code_simp
  have t7: "True \<notin> set (alloc_fail ?bt)" by (simp add: ex_bridge_def)
  have t8: "rbr_nodes ?rt 1 = Some ?st" by (simp add: rbr_A_def)
  have t9: "survivors ?rt 1 None (adjnicks (rbr_ni ?st)) = [2, 3]"
    by code_simp
  have t10: "map (\<lambda>n. map_option (\<lambda>a. adjsnpa (rbr_ni a)) (rbr_nodes ?rt n)) [3, 2] =
      [Some MC, Some MB]"
    by (simp add: rbr_A_def ex_node_def)
  have t11: "rbr_nick ?rt = 1" by (simp add: rbr_A_def)
  have t12: "trace ?bt = []" by (simp add: ex_bridge_def)
  note tt = C8_flood_uses_chosen_root [OF w1 t1 t2, of 10 0, THEN conjunct2, rule_format, OF t3]
  note ft = tt [THEN conjunct2, THEN conjunct2, unfolded t4 t5, rule_format,
      OF conjI [OF t6 conjI [OF w2 conjI [OF w3 t7]]], THEN conjunct2, rule_format, OF t8,
      unfolded t11 t12 t9 list.case append.simps t10]
  have z1: "br_rbr ?bz = Some ?rz" by (simp add: ex_bridge_def)
  have z2: "VALID_NICK (rbr_nick ?rz)" by code_simp
  have z3: "rbr_nodes ?rz (rbr_nick ?rz) = Some ?st" by (simp add: rbr_A_def)
  have z4: "chosen_root ?rz ?st = 0" by code_simp
  have z5: "\<not> VALID_NICK 0" by code_simp
  note z = C8_flood_uses_chosen_root [OF w1 z1 z2, of 10 0, THEN conjunct2, rule_format, OF z3,
      THEN conjunct1, unfolded z4, rule_format, OF z5]
  have z6: "map_option trace (rbr_encaps_prepare 10 ?w RBRIDGE_NICKNAME_NONE 0 ?bz) =
      Some [Kfree_skb ?w]" unfolding z by (simp add: ex_bridge_def)
  have z7: "map_option tx_dropped (rbr_encaps_prepare 10 ?w RBRIDGE_NICKNAME_NONE 0 ?bz) =
      Some 1" unfolding z by (simp add: ex_bridge_def)
  have b1: "br_port_get_rcu (dev ?v) = Some port_B" by code_simp
  have b2: "br_rbr bridge_B = Some rbr_B" by (simp add: bridge_B_def ex_bridge_def)
  have b3: "VALID_NICK (rbr_nick rbr_B)" by code_simp
  have b4: "rbr_nodes rbr_B (rbr_nick rbr_B) = None" by (simp add: rbr_B_def)
  note b = C8_flood_uses_chosen_root [OF b1 b2 b3, of 10 0, THEN conjunct1, rule_format, OF b4]
  show ?thesis
    by (intro conjI, insert w1 w2 w3 a1 a2 a3 a4 a5 a6 a7 fa t1 t2 t3 t4 t5 t6 t7 ft
          z1 z2 z3 z4 z5 z6 z7 b1 b2 b3 b4 b, assumption+)
qed

text \<open>
  C10. On the flood path the clone is handed to \<^verbatim>\<open>br_endstation_deliver\<close> before
  \<^verbatim>\<open>rbr_encaps\<close> runs on the original.  When the clone is allocated and the encapsulation
  then fails, the call returns with the local delivery as its first event, followed only by
  frees; the buffer that \<^verbatim>\<open>rbr_encaps\<close> left is freed last, the transmit-drop counter is
  one higher, and no copy has been forwarded.
\<close>

theorem C10_local_copy_delivered_before_failed_encapsulation:
  assumes port: "br_port_get_rcu (dev skb) = Some p" and rbr: "br_rbr br = Some r"
    and local: "VALID_NICK (rbr_nick r)"
    and self: "rbr_nodes r (rbr_nick r) = Some self"
    and root: "VALID_NICK (chosen_root r self)"
    and clone: "alloc_fail br = False # rest"
    and fail: "rbr_encaps hops (skb\<lparr>cloned := True\<rparr>) (rbr_nick r) (chosen_root r self) True
                 (br_endstation_deliver (skb\<lparr>cloned := True\<rparr>) (br\<lparr>alloc_fail := rest\<rparr>)) =
               Some (True, skb3, br3)"
  shows "\<exists>evs. rbr_encaps_prepare hops skb RBRIDGE_NICKNAME_NONE vid br =
           Some (br3\<lparr>tx_dropped := tx_dropped br + 1,
                   trace := trace br @ [Br_endstation_deliver (skb\<lparr>cloned := True\<rparr>)] @ evs @
                            [Kfree_skb skb3]\<rparr>) \<and>
           (\<forall>e\<in>set evs. \<not> is_forward e \<and> \<not> is_delivery e)"
proof -
  let ?br2 = "br_endstation_deliver (skb\<lparr>cloned := True\<rparr>) (br\<lparr>alloc_fail := rest\<rparr>)"
  from rbr_encaps_events [OF fail] obtain evs where
    e: "tx_dropped br3 = tx_dropped ?br2" "trace br3 = trace ?br2 @ evs"
       "\<forall>e\<in>set evs. \<not> is_forward e \<and> \<not> is_delivery e" by auto
  have "rbr_encaps_prepare hops skb RBRIDGE_NICKNAME_NONE vid br =
          Some (encaps_drop (Some p) skb3 br3)"
    using root skb_clone_ok [OF clone] fail
    by (simp add: rbr_encaps_prepare_flood [OF port rbr local self])
  with e show ?thesis
    by (auto simp add: encaps_drop_eq br_endstation_deliver_def emit_def)
qed

theorem C10_witness:
  "br_port_get_rcu (dev (guest_frame port_A 0x100A)) = Some port_A \<and>
   br_rbr (ex_bridge MA (Some (rbr_A [] 2)) [False, True]) = Some (rbr_A [] 2) \<and>
   VALID_NICK (rbr_nick (rbr_A [] 2)) \<and>
   rbr_nodes (rbr_A [] 2) (rbr_nick (rbr_A [] 2)) = Some (ex_node MA [2, 3] []) \<and>
   VALID_NICK (chosen_root (rbr_A [] 2) (ex_node MA [2, 3] [])) \<and>
   alloc_fail (ex_bridge MA (Some (rbr_A [] 2)) [False, True]) = False # [True] \<and>
   (\<exists>skb3 br3 evs.
      rbr_encaps 10 ((guest_frame port_A 0x100A)\<lparr>cloned := True\<rparr>) (rbr_nick (rbr_A [] 2))
        (chosen_root (rbr_A [] 2) (ex_node MA [2, 3] [])) True
        (br_endstation_deliver ((guest_frame port_A 0x100A)\<lparr>cloned := True\<rparr>)
           ((ex_bridge MA (Some (rbr_A [] 2)) [False, True])\<lparr>alloc_fail := [True]\<rparr>)) =
        Some (True, skb3, br3) \<and>
      map_option trace (rbr_encaps_prepare 10 (guest_frame port_A 0x100A) RBRIDGE_NICKNAME_NONE 0
        (ex_bridge MA (Some (rbr_A [] 2)) [False, True])) =
        Some ([Br_endstation_deliver ((guest_frame port_A 0x100A)\<lparr>cloned := True\<rparr>)] @ evs @
              [Kfree_skb skb3]) \<and>
      map_option tx_dropped (rbr_encaps_prepare 10 (guest_frame port_A 0x100A)
        RBRIDGE_NICKNAME_NONE 0 (ex_bridge MA (Some (rbr_A [] 2)) [False, True])) = Some 1 \<and>
      list_all (\<lambda>e. \<not> is_forward e \<and> \<not> is_delivery e) evs)"
proof -
  let ?w = "guest_frame port_A 0x100A"
  let ?r = "rbr_A [] 2" and ?s = "ex_node MA [2, 3] []"
  let ?b = "ex_bridge MA (Some ?r) [False, True]"
  let ?enc = "rbr_encaps 10 (?w\<lparr>cloned := True\<rparr>) (rbr_nick ?r) (chosen_root ?r ?s) True
        (br_endstation_deliver (?w\<lparr>cloned := True\<rparr>) (?b\<lparr>alloc_fail := [True]\<rparr>))"
  have h1: "br_port_get_rcu (dev ?w) = Some port_A" by code_simp
  have h2: "br_rbr ?b = Some ?r" by (simp add: ex_bridge_def)
  have h3: "VALID_NICK (rbr_nick ?r)" by code_simp
  have h4: "rbr_nodes ?r (rbr_nick ?r) = Some ?s" by (simp add: rbr_A_def)
  have h5: "VALID_NICK (chosen_root ?r ?s)" by code_simp
  have h6: "alloc_fail ?b = False # [True]" by (simp add: ex_bridge_def)
  have "map_option fst ?enc = Some True" by code_simp
  then obtain skb3 br3 where h7: "?enc = Some (True, skb3, br3)"
    by (cases ?enc) auto
  from C10_local_copy_delivered_before_failed_encapsulation [OF h1 h2 h3 h4 h5 h6 h7, of 0] obtain evs where
    e: "rbr_encaps_prepare 10 ?w RBRIDGE_NICKNAME_NONE 0 ?b =
           Some (br3\<lparr>tx_dropped := tx_dropped ?b + 1,
                   trace := trace ?b @ [Br_endstation_deliver (?w\<lparr>cloned := True\<rparr>)] @ evs @
                            [Kfree_skb skb3]\<rparr>)"
    and n: "\<forall>e\<in>set evs. \<not> is_forward e \<and> \<not> is_delivery e" by blast
  have t: "map_option trace (rbr_encaps_prepare 10 ?w RBRIDGE_NICKNAME_NONE 0 ?b) =
        Some ([Br_endstation_deliver (?w\<lparr>cloned := True\<rparr>)] @ evs @ [Kfree_skb skb3])"
    unfolding e by (simp add: ex_bridge_def)
  have d: "map_option tx_dropped (rbr_encaps_prepare 10 ?w RBRIDGE_NICKNAME_NONE 0 ?b) = Some 1"
    unfolding e by (simp add: ex_bridge_def)
  have l: "list_all (\<lambda>e. \<not> is_forward e \<and> \<not> is_delivery e) evs"
    using n by (simp add: list_all_iff)
  show ?thesis
    by (intro conjI exI [of _ skb3] exI [of _ br3] exI [of _ evs],
        insert h1 h2 h3 h4 h5 h6 h7 t d l, assumption+)
qed
end
